theory Spec2Isabelle
  imports Complex_Main "HOL-Library.Monad_Syntax" "HOL-Library.Word"
    "HOL-Library.Signed_Division"
begin

section \<open>C programs as functions with undefined behaviour\<close>

text \<open>
  Every file of the repository is one C program. A C function becomes a HOL function in
  the option monad: \<open>None\<close> is undefined behaviour of the C program (a read or write
  outside an array, or through a null or uninitialised pointer), \<open>Some r\<close> is a normal
  return with result \<open>r\<close>. The C type \<open>int\<close> is modelled by \<open>int\<close>: every integer
  the programs compute stays far below \<open>2^31\<close> (loop counters are bounded by the array
  sizes, the largest index expression of the repository is \<open>10047 * 4096\<close>). C's
  \<^verbatim>\<open>/\<close> and \<^verbatim>\<open>%\<close> on \<open>int\<close> truncate towards zero: \<open>sdiv\<close> and \<open>smod\<close>.

  Arrays are lists; an index is a C \<open>int\<close>, and an access outside the array is undefined.
\<close>

definition rd :: "'a list \<Rightarrow> int \<Rightarrow> 'a option" where
  "rd xs i = (if 0 \<le> i \<and> i < int (length xs) then Some (xs ! nat i) else None)"

definition wr :: "'a list \<Rightarrow> int \<Rightarrow> 'a \<Rightarrow> 'a list option" where
  "wr xs i v = (if 0 \<le> i \<and> i < int (length xs) then Some (xs[nat i := v]) else None)"

text \<open>A global two-dimensional array \<^verbatim>\<open>T M[h][w]\<close>: \<^verbatim>\<open>M[i][j]\<close> read and written.\<close>

definition rd2 :: "'a list list \<Rightarrow> int \<Rightarrow> int \<Rightarrow> 'a option" where
  "rd2 M i j = do { row \<leftarrow> rd M i; rd row j }"

definition wr2 :: "'a list list \<Rightarrow> int \<Rightarrow> int \<Rightarrow> 'a \<Rightarrow> 'a list list option" where
  "wr2 M i j v = do { row \<leftarrow> rd M i; row' \<leftarrow> wr row j v; wr M i row' }"

text \<open>
  A pointer \<^verbatim>\<open>T *p\<close> to a block obtained from \<^verbatim>\<open>malloc\<close> is \<open>None\<close> when it is null
  (or was never assigned) and otherwise holds the block it points to. The blocks of the
  programs are allocated one by one and each is reached through one pointer only, so a
  block is passed and returned with its pointer. \<^verbatim>\<open>T **p\<close> is a pointer to a block of
  pointers.
\<close>

type_synonym 'a ptr = "'a list option"

definition load :: "'a ptr \<Rightarrow> int \<Rightarrow> 'a option" where
  "load p i = do { xs \<leftarrow> p; rd xs i }"

definition store :: "'a ptr \<Rightarrow> int \<Rightarrow> 'a \<Rightarrow> 'a ptr option" where
  "store p i v = do { xs \<leftarrow> p; xs' \<leftarrow> wr xs i v; Some (Some xs') }"

definition load2 :: "'a ptr ptr \<Rightarrow> int \<Rightarrow> int \<Rightarrow> 'a option" where
  "load2 p i j = do { row \<leftarrow> load p i; load row j }"

definition store2 :: "'a ptr ptr \<Rightarrow> int \<Rightarrow> int \<Rightarrow> 'a \<Rightarrow> 'a ptr ptr option" where
  "store2 p i j v = do { row \<leftarrow> load p i; row' \<leftarrow> store row j v; store p i row' }"

text \<open>
  The loop \<^verbatim>\<open>for (int i = a; i < n; i++) body\<close>, started with \<open>i = a\<close>: the body
  transforms the variables it assigns, and undefined behaviour in one iteration is
  undefined behaviour of the loop.
\<close>

function for_loop :: "int \<Rightarrow> int \<Rightarrow> (int \<Rightarrow> 's \<Rightarrow> 's option) \<Rightarrow> 's \<Rightarrow> 's option" where
  "for_loop i n body s =
     (if i < n then (case body i s of None \<Rightarrow> None | Some s' \<Rightarrow> for_loop (i + 1) n body s')
      else Some s)"
  by pat_completeness auto
termination
  by (relation "measure (\<lambda>(i, n, body, s). nat (n - i))") auto

declare for_loop.simps [simp del]

text \<open>
  The environment of a run: whether the \<open>k\<close>-th call of \<^verbatim>\<open>malloc\<close> succeeds, the
  indeterminate contents of the block it returns, the value of the \<open>k\<close>-th call of
  \<^verbatim>\<open>clock()\<close>, and the constant \<^verbatim>\<open>CLOCKS_PER_SEC\<close>.
\<close>

record 'a env =
  malloc_ok :: "nat \<Rightarrow> bool"
  malloc_junk :: "nat \<Rightarrow> nat \<Rightarrow> 'a"
  clock :: "nat \<Rightarrow> int"
  CLOCKS_PER_SEC :: int

text \<open>The \<open>k\<close>-th call of \<^verbatim>\<open>malloc\<close>, for \<open>n\<close> elements; and for \<open>n\<close> pointers.\<close>

definition malloc :: "'a env \<Rightarrow> nat \<Rightarrow> int \<Rightarrow> 'a ptr" where
  "malloc e k n = (if malloc_ok e k then Some (map (malloc_junk e k) [0..<nat n]) else None)"

definition malloc_ptrs :: "'a env \<Rightarrow> nat \<Rightarrow> int \<Rightarrow> 'a ptr ptr" where
  "malloc_ptrs e k n = (if malloc_ok e k then Some (replicate (nat n) None) else None)"

text \<open>
  Floating point. The types \<^verbatim>\<open>float\<close> and \<^verbatim>\<open>double\<close> are a type \<open>'a\<close> with
  operations \<open>+\<close>, \<open>-\<close>, \<open>*\<close>, \<open>/\<close> and \<open><\<close> of which no law is assumed, and a function
  \<open>fl\<close> from the reals that gives the value of a literal and of a conversion from \<open>int\<close>.
  What is proved of a program for every such \<open>'a\<close> and \<open>fl\<close> holds of its floating-point
  runs; the exact run is \<open>'a = real\<close> with \<open>fl = (\<lambda>r. r)\<close>, and the two IEEE formats
  are the types \<open>binary32\<close> and \<open>binary64\<close> defined further down.

  What a program prints: one entry per \<^verbatim>\<open>printf\<close> call, the format string (without
  its final newline) and the values of its arguments. A value is tagged with where it
  comes from: a number read from the program's data, or a number computed from the
  readings of \<^verbatim>\<open>clock()\<close>.
\<close>

datatype 'a arg = Data 'a | DataInt int | Timing 'a

type_synonym 'a line = "string \<times> 'a arg list"

text \<open>
  The result of \<open>main\<close>: what was printed, the exit code, and the final contents of
  the program's arrays.
\<close>

type_synonym ('a, 'm) outcome = "'a line list \<times> int \<times> 'm"

fun is_timing :: "'a arg \<Rightarrow> bool" where
  "is_timing (Timing t) = True"
| "is_timing (Data v) = False"
| "is_timing (DataInt v) = False"

fun is_data :: "'a arg \<Rightarrow> bool" where
  "is_data (Timing t) = False"
| "is_data (Data v) = True"
| "is_data (DataInt v) = True"

definition timing_line :: "'a line \<Rightarrow> bool" where
  "timing_line l = list_ex is_timing (snd l)"

definition checksum_line :: "'a line \<Rightarrow> bool" where
  "checksum_line l = list_ex is_data (snd l)"

section \<open>Lab_2/kernels/kernel4.c: blocked, strided reads\<close>

definition STRIDE :: int where "STRIDE = 4096"
definition NUM_ACCESSES :: int where "NUM_ACCESSES = 10000"
definition BLOCK_SIZE :: int where "BLOCK_SIZE = 64"
definition kernel4_ARRAY_SIZE :: int where "kernel4_ARRAY_SIZE = STRIDE * NUM_ACCESSES"

text \<open>The global \<^verbatim>\<open>int A[ARRAY_SIZE]\<close>, zero-initialised before \<open>main\<close> runs.\<close>

definition kernel4_A0 :: "int list" where
  "kernel4_A0 = replicate (nat kernel4_ARRAY_SIZE) 0"

text \<open>\<^verbatim>\<open>for (int i = 0; i < ARRAY_SIZE; i++) A[i] = i;\<close>\<close>

definition kernel4_init :: "int list \<Rightarrow> int list option" where
  "kernel4_init A = for_loop 0 kernel4_ARRAY_SIZE (\<lambda>i A. wr A i i) A"

text \<open>
  The index expression of the read in the blocked loop, and the inner loop
  \<^verbatim>\<open>for (int i = 0; i < BLOCK_SIZE; i++) sum += A[(block + i) * STRIDE];\<close>
\<close>

definition kernel4_index :: "int \<Rightarrow> int \<Rightarrow> int" where
  "kernel4_index block i = (block + i) * STRIDE"

definition kernel4_block :: "int list \<Rightarrow> int \<Rightarrow> int \<Rightarrow> int option" where
  "kernel4_block A block acc =
     for_loop 0 BLOCK_SIZE
       (\<lambda>i acc. do { v \<leftarrow> rd A (kernel4_index block i); Some (acc + v) }) acc"

text \<open>
  \<^verbatim>\<open>for (int block = 0; block < NUM_ACCESSES; block += BLOCK_SIZE) ...\<close>,
  started at any \<open>block\<close>.
\<close>

function kernel4_blocks :: "int list \<Rightarrow> int \<Rightarrow> int \<Rightarrow> int option" where
  "kernel4_blocks A block acc =
     (if block < NUM_ACCESSES
      then (case kernel4_block A block acc of
              None \<Rightarrow> None
            | Some acc' \<Rightarrow> kernel4_blocks A (block + BLOCK_SIZE) acc')
      else Some acc)"
  by pat_completeness auto
termination
  by (relation "measure (\<lambda>(A, block, acc). nat (NUM_ACCESSES - block))")
    (auto simp: BLOCK_SIZE_def)

declare kernel4_blocks.simps [simp del]

definition kernel4_main :: "('a, int list) outcome option" where
  "kernel4_main = do {
     A \<leftarrow> kernel4_init kernel4_A0;
     acc \<leftarrow> kernel4_blocks A 0 0;
     Some ([(''Sum = %lld'', [DataInt acc])], 0, A)
   }"

section \<open>Lab_2/kernels/mmm.c: naive matrix multiplication on global arrays\<close>

definition mmm_N :: int where "mmm_N = 128"

text \<open>The globals \<^verbatim>\<open>float A[N][N], B[N][N], C[N][N]\<close>, zero-initialised.\<close>

record 'a mmm_globals =
  mmm_A :: "'a list list"
  mmm_B :: "'a list list"
  mmm_C :: "'a list list"

definition mmm_globals0 :: "(real \<Rightarrow> 'a) \<Rightarrow> 'a mmm_globals" where
  "mmm_globals0 fl =
     (let Z = replicate (nat mmm_N) (replicate (nat mmm_N) (fl 0))
      in \<lparr>mmm_A = Z, mmm_B = Z, mmm_C = Z\<rparr>)"

text \<open>
  The functions of \<^verbatim>\<open>mmm.c\<close> loop up to the macro \<open>N\<close>; the models take it as the
  parameter \<open>n\<close>, and \<open>main\<close> passes \<open>mmm_N\<close>.
\<close>

definition init_matrices :: "(real \<Rightarrow> 'a) \<Rightarrow> int \<Rightarrow> 'a mmm_globals \<Rightarrow> 'a mmm_globals option" where
  "init_matrices fl n =
     for_loop 0 n (\<lambda>i. for_loop 0 n (\<lambda>j g. do {
       A' \<leftarrow> wr2 (mmm_A g) i j (fl (of_int (i + j)));
       B' \<leftarrow> wr2 (mmm_B g) i j (fl (of_int (i - j)));
       C' \<leftarrow> wr2 (mmm_C g) i j (fl 0);
       Some \<lparr>mmm_A = A', mmm_B = B', mmm_C = C'\<rparr>
     }))"

definition matrix_multiply_naive ::
  "int \<Rightarrow> ('a::{plus,times}) mmm_globals \<Rightarrow> 'a mmm_globals option" where
  "matrix_multiply_naive n =
     for_loop 0 n (\<lambda>i. for_loop 0 n (\<lambda>j. for_loop 0 n (\<lambda>k g. do {
       c \<leftarrow> rd2 (mmm_C g) i j;
       a \<leftarrow> rd2 (mmm_A g) i k;
       b \<leftarrow> rd2 (mmm_B g) k j;
       C' \<leftarrow> wr2 (mmm_C g) i j (c + a * b);
       Some (g\<lparr>mmm_C := C'\<rparr>)
     })))"

definition mmm_run :: "(real \<Rightarrow> 'a::{plus,times}) \<Rightarrow> 'a mmm_globals option" where
  "mmm_run fl = do {
     g \<leftarrow> init_matrices fl mmm_N (mmm_globals0 fl);
     matrix_multiply_naive mmm_N g
   }"

definition mmm_main ::
  "(real \<Rightarrow> 'a::{plus,times,inverse}) \<Rightarrow> 'b env \<Rightarrow> ('a, 'a mmm_globals) outcome option" where
  "mmm_main fl e = do {
     let t_start = clock e 0;
     g \<leftarrow> mmm_run fl;
     let t_end = clock e 1;
     c00 \<leftarrow> rd2 (mmm_C g) 0 0;
     Some ([(''Done MMM Naive. C[0][0]=%f Time=%.2f ms'',
             [Data c00,
              Timing (fl 1000 * fl (of_int (t_end - t_start)) / fl (of_int (CLOCKS_PER_SEC e)))])],
           0, g)
   }"

section \<open>kernels/matrix_mult_unopt.c: matrix multiplication on allocated matrices\<close>

definition matrix_SIZE :: int where "matrix_SIZE = 256"

text \<open>
  \<^verbatim>\<open>matrix_multiply(A, B, C, n)\<close> updates the rows of \<open>C\<close> and returns nothing; the model
  returns the new \<open>C\<close>. \<open>C\<close> shares no row with \<open>A\<close> or \<open>B\<close>, as in \<open>main\<close>.
\<close>

definition matrix_multiply ::
  "('a::{plus,times}) ptr ptr \<Rightarrow> 'a ptr ptr \<Rightarrow> 'a ptr ptr \<Rightarrow> int \<Rightarrow> 'a ptr ptr option" where
  "matrix_multiply A B C n =
     for_loop 0 n (\<lambda>i. for_loop 0 n (\<lambda>k. for_loop 0 n (\<lambda>j C. do {
       c \<leftarrow> load2 C i j;
       a \<leftarrow> load2 A i k;
       b \<leftarrow> load2 B k j;
       store2 C i j (c + a * b)
     }))) C"

text \<open>\<open>allocate_matrix\<close> makes \<open>1 + n\<close> calls of \<^verbatim>\<open>malloc\<close>, numbered from \<open>k\<close>.\<close>

definition allocate_matrix :: "'a env \<Rightarrow> nat \<Rightarrow> int \<Rightarrow> ('a ptr ptr \<times> nat) option" where
  "allocate_matrix e k n =
     for_loop 0 n (\<lambda>i (matrix, k). do {
       matrix' \<leftarrow> store matrix i (malloc e k n);
       Some (matrix', k + 1)
     }) (malloc_ptrs e k n, k + 1)"

definition free_matrix :: "'a ptr ptr \<Rightarrow> int \<Rightarrow> unit option" where
  "free_matrix matrix n = for_loop 0 n (\<lambda>i u. do { row \<leftarrow> load matrix i; Some u }) ()"

text \<open>
  The C library's generator: \<open>srand seed\<close> is the generator's state after
  \<^verbatim>\<open>srand(seed)\<close>, and \<open>rand\<close> gives the next number, which is not negative, and the
  next state. A program that never calls \<^verbatim>\<open>srand\<close> starts from \<open>srand 1\<close>.
\<close>

definition initialize_matrix ::
  "(real \<Rightarrow> 'a::inverse) \<Rightarrow> ('r \<Rightarrow> nat \<times> 'r) \<Rightarrow> 'a ptr ptr \<Rightarrow> int \<Rightarrow> 'r \<Rightarrow> ('a ptr ptr \<times> 'r) option" where
  "initialize_matrix fl rand matrix n rng =
     for_loop 0 n (\<lambda>i. for_loop 0 n (\<lambda>j (matrix, rng). do {
       let (r, rng') = rand rng;
       matrix' \<leftarrow> store2 matrix i j (fl (of_int (int r smod 100)) / fl 10);
       Some (matrix', rng')
     })) (matrix, rng)"

definition zero_matrix :: "(real \<Rightarrow> 'a) \<Rightarrow> 'a ptr ptr \<Rightarrow> int \<Rightarrow> 'a ptr ptr option" where
  "zero_matrix fl matrix n =
     for_loop 0 n (\<lambda>i. for_loop 0 n (\<lambda>j matrix. store2 matrix i j (fl 0))) matrix"

definition matrix_mult_main ::
  "(real \<Rightarrow> 'a::{plus,times,inverse}) \<Rightarrow> (nat \<Rightarrow> 'r) \<Rightarrow> ('r \<Rightarrow> nat \<times> 'r) \<Rightarrow> 'a env
   \<Rightarrow> ('a, 'a ptr ptr \<times> 'a ptr ptr \<times> 'a ptr ptr) outcome option" where
  "matrix_mult_main fl srand rand e = do {
     let rng = srand 42;
     (A, k) \<leftarrow> allocate_matrix e 0 matrix_SIZE;
     (B, k) \<leftarrow> allocate_matrix e k matrix_SIZE;
     (C, k) \<leftarrow> allocate_matrix e k matrix_SIZE;
     (A, rng) \<leftarrow> initialize_matrix fl rand A matrix_SIZE rng;
     (B, rng) \<leftarrow> initialize_matrix fl rand B matrix_SIZE rng;
     C \<leftarrow> zero_matrix fl C matrix_SIZE;
     let t_start = clock e 0;
     C \<leftarrow> matrix_multiply A B C matrix_SIZE;
     let t_end = clock e 1;
     let time_taken = fl (of_int (t_end - t_start)) / fl (of_int (CLOCKS_PER_SEC e));
     c0 \<leftarrow> load2 C 0 0;
     c100 \<leftarrow> load2 C 100 100;
     _ \<leftarrow> free_matrix A matrix_SIZE;
     _ \<leftarrow> free_matrix B matrix_SIZE;
     _ \<leftarrow> free_matrix C matrix_SIZE;
     Some ([(''Matrix multiplication completed in %f seconds'', [Timing time_taken]),
            (''Result checksum: C[0][0] = %f, C[100][100] = %f'', [Data c0, Data c100])],
           0, (A, B, C))
   }"

section \<open>kernels/image_blur_unopt.c\<close>

definition WIDTH :: int where "WIDTH = 512"
definition HEIGHT :: int where "HEIGHT = 512"
definition KERNEL_SIZE :: int where "KERNEL_SIZE = 5"

type_synonym uchar = "8 word"

text \<open>The local array \<^verbatim>\<open>int kernel[KERNEL_SIZE][KERNEL_SIZE]\<close> of \<open>image_blur\<close>.\<close>

definition blur_kernel :: "int list list" where
  "blur_kernel =
     [[1, 1, 1, 1, 1],
      [1, 2, 2, 2, 1],
      [1, 2, 3, 2, 1],
      [1, 2, 2, 2, 1],
      [1, 1, 1, 1, 1]]"

text \<open>
  \<open>image_blur\<close> returns the new \<open>output\<close>; \<open>input\<close> and \<open>output\<close> are different
  images, as in \<open>main\<close>. A pixel is promoted to \<open>int\<close> (\<open>uint\<close>) in the sum, called
  \<open>acc\<close> here, and the quotient is converted to \<^verbatim>\<open>unsigned char\<close> (\<open>word_of_int\<close>)
  when it is stored. The inner loops run while \<^verbatim>\<open>kx <= offset\<close>, that is up to
  \<open>offset + 1\<close>.
\<close>

definition image_blur :: "uchar ptr ptr \<Rightarrow> uchar ptr ptr \<Rightarrow> int \<Rightarrow> int \<Rightarrow> uchar ptr ptr option" where
  "image_blur input output width height =
     (let kernel_sum = 35; offset = KERNEL_SIZE sdiv 2 in
      for_loop offset (width - offset) (\<lambda>x. for_loop offset (height - offset) (\<lambda>y output. do {
        acc \<leftarrow> for_loop (- offset) (offset + 1) (\<lambda>kx. for_loop (- offset) (offset + 1)
          (\<lambda>ky acc. do {
             p \<leftarrow> load2 input (y + ky) (x + kx);
             c \<leftarrow> rd2 blur_kernel (ky + offset) (kx + offset);
             Some (acc + uint p * c)
           })) 0;
        store2 output y x (word_of_int (acc sdiv kernel_sum))
      })) output)"

text \<open>\<open>allocate_image\<close> makes \<open>1 + height\<close> calls of \<^verbatim>\<open>malloc\<close>, numbered from \<open>k\<close>.\<close>

definition allocate_image :: "'a env \<Rightarrow> nat \<Rightarrow> int \<Rightarrow> int \<Rightarrow> ('a ptr ptr \<times> nat) option" where
  "allocate_image e k width height =
     for_loop 0 height (\<lambda>i (img, k). do {
       img' \<leftarrow> store img i (malloc e k width);
       Some (img', k + 1)
     }) (malloc_ptrs e k height, k + 1)"

definition free_image :: "'a ptr ptr \<Rightarrow> int \<Rightarrow> unit option" where
  "free_image img height = for_loop 0 height (\<lambda>i u. do { row \<leftarrow> load img i; Some u }) ()"

definition initialize_image :: "uchar ptr ptr \<Rightarrow> int \<Rightarrow> int \<Rightarrow> uchar ptr ptr option" where
  "initialize_image img width height =
     for_loop 0 width (\<lambda>x. for_loop 0 height (\<lambda>y img.
       store2 img y x (word_of_int ((x + y) smod 256)))) img"

definition image_blur_main ::
  "(real \<Rightarrow> 'a::inverse) \<Rightarrow> uchar env \<Rightarrow> ('a, uchar ptr ptr \<times> uchar ptr ptr) outcome option" where
  "image_blur_main fl e = do {
     (input, k) \<leftarrow> allocate_image e 0 WIDTH HEIGHT;
     (output, k) \<leftarrow> allocate_image e k WIDTH HEIGHT;
     input \<leftarrow> initialize_image input WIDTH HEIGHT;
     let t_start = clock e 0;
     output \<leftarrow> image_blur input output WIDTH HEIGHT;
     let t_end = clock e 1;
     let time_taken = fl (of_int (t_end - t_start)) / fl (of_int (CLOCKS_PER_SEC e));
     o100 \<leftarrow> load2 output 100 100;
     o200 \<leftarrow> load2 output 200 200;
     _ \<leftarrow> free_image input HEIGHT;
     _ \<leftarrow> free_image output HEIGHT;
     Some ([(''Image blur completed in %f seconds'', [Timing time_taken]),
            (''Result checksum: output[100][100] = %d, output[200][200] = %d'',
             [DataInt (uint o100), DataInt (uint o200)])],
           0, (input, output))
   }"

section \<open>kernels/stream_bench.c\<close>

definition stream_ARRAY_SIZE :: int where "stream_ARRAY_SIZE = 1024 * 1024"
definition REPEAT_COUNT :: int where "REPEAT_COUNT = 10"

text \<open>
  Each kernel returns the array it writes; the three arrays are different blocks. In
  \<open>main\<close>, \<^verbatim>\<open>sizeof(double)\<close> is 8, and the three calls of \<^verbatim>\<open>free\<close> at the end, which
  read nothing, are left out.
\<close>

definition stream_copy :: "'a ptr \<Rightarrow> 'a ptr \<Rightarrow> int \<Rightarrow> 'a ptr option" where
  "stream_copy a b n = for_loop 0 n (\<lambda>i b. do { x \<leftarrow> load a i; store b i x }) b"

definition stream_scale :: "('a::times) ptr \<Rightarrow> 'a ptr \<Rightarrow> 'a \<Rightarrow> int \<Rightarrow> 'a ptr option" where
  "stream_scale a b scalar n =
     for_loop 0 n (\<lambda>i b. do { x \<leftarrow> load a i; store b i (scalar * x) }) b"

definition stream_add :: "('a::plus) ptr \<Rightarrow> 'a ptr \<Rightarrow> 'a ptr \<Rightarrow> int \<Rightarrow> 'a ptr option" where
  "stream_add a b c n =
     for_loop 0 n (\<lambda>i c. do { x \<leftarrow> load a i; y \<leftarrow> load b i; store c i (x + y) }) c"

definition stream_triad ::
  "('a::{plus,times}) ptr \<Rightarrow> 'a ptr \<Rightarrow> 'a ptr \<Rightarrow> 'a \<Rightarrow> int \<Rightarrow> 'a ptr option" where
  "stream_triad a b c scalar n =
     for_loop 0 n (\<lambda>i a. do { y \<leftarrow> load b i; z \<leftarrow> load c i; store a i (y + scalar * z) }) a"

definition initialize_arrays ::
  "(real \<Rightarrow> 'a) \<Rightarrow> 'a ptr \<Rightarrow> 'a ptr \<Rightarrow> 'a ptr \<Rightarrow> int \<Rightarrow> ('a ptr \<times> 'a ptr \<times> 'a ptr) option" where
  "initialize_arrays fl a b c n =
     for_loop 0 n (\<lambda>i (a, b, c). do {
       a' \<leftarrow> store a i (fl 1.0);
       b' \<leftarrow> store b i (fl 2.0);
       c' \<leftarrow> store c i (fl 0.0);
       Some (a', b', c')
     }) (a, b, c)"

text \<open>One pass of the loop of \<open>main\<close>, and the loop for \<open>reps\<close> passes.\<close>

definition stream_pass ::
  "(real \<Rightarrow> 'a::{plus,times}) \<Rightarrow> int \<Rightarrow> 'a ptr \<times> 'a ptr \<times> 'a ptr
   \<Rightarrow> ('a ptr \<times> 'a ptr \<times> 'a ptr) option" where
  "stream_pass fl n = (\<lambda>(a, b, c). do {
     c \<leftarrow> stream_copy a c n;
     b \<leftarrow> stream_scale c b (fl 2.5) n;
     c \<leftarrow> stream_add a b c n;
     a \<leftarrow> stream_triad a b c (fl 1.5) n;
     Some (a, b, c)
   })"

definition stream_passes ::
  "(real \<Rightarrow> 'a::{plus,times}) \<Rightarrow> int \<Rightarrow> int \<Rightarrow> 'a ptr \<times> 'a ptr \<times> 'a ptr
   \<Rightarrow> ('a ptr \<times> 'a ptr \<times> 'a ptr) option" where
  "stream_passes fl n reps = for_loop 0 reps (\<lambda>rep. stream_pass fl n)"

definition stream_main ::
  "(real \<Rightarrow> 'a::{plus,times,inverse}) \<Rightarrow> 'a env
   \<Rightarrow> ('a, 'a ptr \<times> 'a ptr \<times> 'a ptr) outcome option" where
  "stream_main fl e =
     (let a = malloc e 0 stream_ARRAY_SIZE;
          b = malloc e 1 stream_ARRAY_SIZE;
          c = malloc e 2 stream_ARRAY_SIZE
      in if a = None \<or> b = None \<or> c = None
         then Some ([(''Memory allocation failed'', [])], 1, (a, b, c))
         else do {
           (a, b, c) \<leftarrow> initialize_arrays fl a b c stream_ARRAY_SIZE;
           let t_start = clock e 0;
           (a, b, c) \<leftarrow> stream_passes fl stream_ARRAY_SIZE REPEAT_COUNT (a, b, c);
           let t_end = clock e 1;
           let time_taken = fl (of_int (t_end - t_start)) / fl (of_int (CLOCKS_PER_SEC e));
           a100 \<leftarrow> load a 100;
           b100 \<leftarrow> load b 100;
           let total_bytes = stream_ARRAY_SIZE * 8 * 10 * REPEAT_COUNT;
           let bandwidth_gb_s =
             (fl (of_int total_bytes) / (fl 1024.0 * fl 1024.0 * fl 1024.0)) / time_taken;
           Some ([(''Stream benchmark completed in %f seconds'', [Timing time_taken]),
                  (''Final result checksum: a[100] = %f, b[100] = %f'', [Data a100, Data b100]),
                  (''Approximate memory bandwidth: %.2f GB/s'', [Timing bandwidth_gb_s])],
                 0, (a, b, c))
         })"

section \<open>kernels/kernel5.c: random writes\<close>

definition kernel5_SIZE :: int where "kernel5_SIZE = 10000"

definition kernel5_main ::
  "(real \<Rightarrow> 'a::plus) \<Rightarrow> (nat \<Rightarrow> 'r) \<Rightarrow> ('r \<Rightarrow> nat \<times> 'r)
   \<Rightarrow> ('a, 'a list \<times> 'a list \<times> int list) outcome option" where
  "kernel5_main fl srand rand = do {
     (h, w, idx, rng) \<leftarrow> for_loop 0 kernel5_SIZE (\<lambda>i (h, w, idx, rng). do {
        h' \<leftarrow> wr h i (fl (of_int i));
        w' \<leftarrow> wr w i (fl (of_int (kernel5_SIZE - i)));
        let (r, rng') = rand rng;
        idx' \<leftarrow> wr idx i (int r smod kernel5_SIZE);
        Some (h', w', idx', rng')
      }) (replicate (nat kernel5_SIZE) (fl 0), replicate (nat kernel5_SIZE) (fl 0),
          replicate (nat kernel5_SIZE) 0, srand 1);
     h \<leftarrow> for_loop 0 kernel5_SIZE (\<lambda>i h. do {
        j \<leftarrow> rd idx i;
        x \<leftarrow> rd h j;
        y \<leftarrow> rd w i;
        wr h j (x + y)
      }) h;
     Some ([(''Done.'', [])], 0, (h, w, idx))
   }"

section \<open>Lab_1/kernels/kernel2.c: a sum behind a branch\<close>

definition lab1_SIZE :: int where "lab1_SIZE = 10000"

definition lab1_kernel2_main ::
  "(real \<Rightarrow> 'a::{plus,minus,times,ord}) \<Rightarrow> ('a, 'a list \<times> 'a list \<times> 'a) outcome option" where
  "lab1_kernel2_main fl = do {
     (A, B) \<leftarrow> for_loop 0 lab1_SIZE (\<lambda>i (A, B). do {
        A' \<leftarrow> wr A i (fl (of_int i) * fl 0.5);
        B' \<leftarrow> wr B i (fl (of_int lab1_SIZE) - fl (of_int i) * fl 0.5);
        Some (A', B')
      }) (replicate (nat lab1_SIZE) (fl 0), replicate (nat lab1_SIZE) (fl 0));
     total \<leftarrow> for_loop 0 lab1_SIZE (\<lambda>i acc. do {
        a \<leftarrow> rd A i;
        b \<leftarrow> rd B i;
        let diff = a - b;
        Some (if fl 0 < diff then acc + diff else acc)
      }) (fl 0);
     Some ([(''Result: %f'', [Data total])], 0, (A, B, total))
   }"

section \<open>Lab_2/kernels/kernel2.c: a sum behind an unpredictable branch\<close>

definition branch_N :: int where "branch_N = 100000"

definition lab2_kernel2_main ::
  "(nat \<Rightarrow> 'r) \<Rightarrow> ('r \<Rightarrow> nat \<times> 'r) \<Rightarrow> ('a, int list) outcome option" where
  "lab2_kernel2_main srand rand = do {
     (A, rng) \<leftarrow> for_loop 0 branch_N (\<lambda>i (A, rng). do {
        let (r, rng') = rand rng;
        A' \<leftarrow> wr A i (int r smod 100);
        Some (A', rng')
      }) (replicate (nat branch_N) 0, srand 1);
     acc \<leftarrow> for_loop 0 branch_N (\<lambda>i acc. do {
        a \<leftarrow> rd A i;
        Some (if a smod 2 = 0 then acc + a else acc)
      }) 0;
     Some ([(''Sum = %d'', [DataInt acc])], 0, A)
   }"

section \<open>Vocabulary of the specifications\<close>

text \<open>
  A matrix of \<open>h\<close> rows of \<open>w\<close> elements; its element at C indices \<open>i\<close>, \<open>j\<close>; the
  matrix with one element replaced; and the pointer structure that \<open>allocate_matrix\<close> and
  \<open>allocate_image\<close> build for it: a block of row pointers, none of them null.
\<close>

definition rect :: "nat \<Rightarrow> nat \<Rightarrow> 'a list list \<Rightarrow> bool" where
  "rect h w M = (length M = h \<and> list_all (\<lambda>row. length row = w) M)"

definition cell :: "'a list list \<Rightarrow> int \<Rightarrow> int \<Rightarrow> 'a" where
  "cell M i j = M ! nat i ! nat j"

definition set2 :: "'a list list \<Rightarrow> int \<Rightarrow> int \<Rightarrow> 'a \<Rightarrow> 'a list list" where
  "set2 M i j v = M[nat i := (M ! nat i)[nat j := v]]"

definition ptr2 :: "'a list list \<Rightarrow> 'a ptr ptr" where
  "ptr2 M = Some (map Some M)"

text \<open>
  The dot product of row \<open>i\<close> of \<open>A\<close> and column \<open>j\<close> of \<open>B\<close> over the first \<open>k\<close>
  indices, added to \<open>c\<close> one product after the other in increasing order of the index:
  \<open>(...((c + A[i][0] * B[0][j]) + A[i][1] * B[1][j]) + ...) + A[i][k-1] * B[k-1][j]\<close>.
\<close>

definition dot :: "('a::{plus,times}) list list \<Rightarrow> 'a list list \<Rightarrow> 'a \<Rightarrow> int \<Rightarrow> int \<Rightarrow> nat \<Rightarrow> 'a" where
  "dot A B c i j k = foldl (\<lambda>acc k. acc + cell A i (int k) * cell B (int k) j) c [0..<k]"

text \<open>
  What \<^verbatim>\<open>kernel2.c\<close> of Lab 1 needs of \<^verbatim>\<open>float\<close>. A floating-point number \<open>x\<close> has
  a real value \<open>val x\<close>. The half-integers \<open>k / 2\<close> of magnitude up to \<open>2^23\<close> are numbers of
  the format (their numerators have at most 24 bits), so a conversion, a product or a
  difference whose exact result is one of them is computed without rounding, and such
  a number is above \<open>0\<close> exactly when its value is.
\<close>

definition half_int :: "real \<Rightarrow> bool" where
  "half_int r = (of_int \<lfloor>2 * r\<rfloor> = 2 * r \<and> \<bar>r\<bar> \<le> 2 ^ 23)"

definition exact_on_halves :: "(real \<Rightarrow> 'a::{minus,times,ord}) \<Rightarrow> ('a \<Rightarrow> real) \<Rightarrow> bool" where
  "exact_on_halves fl val =
     ((\<forall>r. half_int r \<longrightarrow> val (fl r) = r)
      \<and> (\<forall>x y. half_int (val x) \<and> half_int (val y) \<and> half_int (val x * val y)
             \<longrightarrow> val (x * y) = val x * val y)
      \<and> (\<forall>x y. half_int (val x) \<and> half_int (val y) \<and> half_int (val x - val y)
             \<longrightarrow> val (x - y) = val x - val y)
      \<and> (\<forall>x. half_int (val x) \<longrightarrow> (fl 0 < x) = (0 < val x)))"

text \<open>
  The generator's state after \<open>k\<close> calls of \<^verbatim>\<open>rand()\<close> from the state \<open>rng\<close>, the
  number that the next call returns, and the \<open>n\<close> by \<open>n\<close> matrix that holds
  \<^verbatim>\<open>(double)(rand() % 100) / 10.0\<close> for \<open>n * n\<close> successive calls, row by row.
\<close>

fun rand_state :: "('r \<Rightarrow> nat \<times> 'r) \<Rightarrow> 'r \<Rightarrow> nat \<Rightarrow> 'r" where
  "rand_state rand rng 0 = rng"
| "rand_state rand rng (Suc k) = snd (rand (rand_state rand rng k))"

definition rand_value :: "('r \<Rightarrow> nat \<times> 'r) \<Rightarrow> 'r \<Rightarrow> nat \<Rightarrow> nat" where
  "rand_value rand rng k = fst (rand (rand_state rand rng k))"

definition rand_matrix ::
  "(real \<Rightarrow> 'a::inverse) \<Rightarrow> ('r \<Rightarrow> nat \<times> 'r) \<Rightarrow> 'r \<Rightarrow> nat \<Rightarrow> 'a list list" where
  "rand_matrix fl rand rng n =
     map (\<lambda>i. map (\<lambda>j. fl (of_int (int (rand_value rand rng (i * n + j)) smod 100)) / fl 10)
                [0..<n]) [0..<n]"

text \<open>The matrix of the dot products of the rows of \<open>A\<close> and the columns of \<open>B\<close>.\<close>

definition dot_matrix :: "('a::{plus,times}) list list \<Rightarrow> 'a list list \<Rightarrow> 'a \<Rightarrow> nat \<Rightarrow> 'a list list" where
  "dot_matrix A B c n = map (\<lambda>i. map (\<lambda>j. dot A B c (int i) (int j) n) [0..<n]) [0..<n]"

text \<open>
  The exit code of a run and what it printed, when \<open>main\<close> returns; the first \<open>n\<close> calls
  of \<^verbatim>\<open>malloc\<close> succeed.
\<close>

definition exit_code :: "('a, 'm) outcome option \<Rightarrow> int option" where
  "exit_code r = map_option (\<lambda>(out, code, m). code) r"

definition printed :: "('a, 'm) outcome option \<Rightarrow> 'a line list option" where
  "printed r = map_option (\<lambda>(out, code, m). out) r"

definition final_arrays :: "('a, 'm) outcome option \<Rightarrow> 'm option" where
  "final_arrays r = map_option (\<lambda>(out, code, m). m) r"

definition mallocs_ok :: "'a env \<Rightarrow> nat \<Rightarrow> bool" where
  "mallocs_ok e n = list_all (malloc_ok e) [0..<n]"

text \<open>
  Concrete environments and a concrete generator, for the examples: all allocations
  succeed and the clock stands still; all succeed, with other contents of fresh memory
  and a running clock; no allocation succeeds; a linear congruential \<^verbatim>\<open>rand()\<close>.
\<close>

definition quiet_env :: "'a::zero env" where
  "quiet_env = \<lparr>malloc_ok = (\<lambda>k. True), malloc_junk = (\<lambda>k i. 0), clock = (\<lambda>k. 0),
                CLOCKS_PER_SEC = 1000000\<rparr>"

definition busy_env :: "'a::one env" where
  "busy_env = \<lparr>malloc_ok = (\<lambda>k. True), malloc_junk = (\<lambda>k i. 1),
               clock = (\<lambda>k. 1000 + 250 * int k), CLOCKS_PER_SEC = 1000\<rparr>"

definition starved_env :: "'a::zero env" where
  "starved_env = \<lparr>malloc_ok = (\<lambda>k. False), malloc_junk = (\<lambda>k i. 0), clock = (\<lambda>k. 0),
                  CLOCKS_PER_SEC = 1000000\<rparr>"

definition lcg :: "nat \<Rightarrow> nat \<times> nat" where
  "lcg s = (let s' = (1103515245 * s + 12345) mod 2147483648 in (s', s'))"

text \<open>
  The two formats of the programs, for comparing a \<^verbatim>\<open>float\<close> run with a \<^verbatim>\<open>double\<close>
  run. A number of either format is given by its real value. \<open>round_to p x\<close> is the
  number with a significand of \<open>p\<close> bits nearest to \<open>x\<close>, a tie going to the even
  significand: with \<open>2^e \<le> |x| < 2^(e+1)\<close> it is a multiple of \<open>2^(e - p + 1)\<close>. The
  exponent is not bounded (no overflow, no subnormal numbers), which is exact for the
  numbers compared here. \<^verbatim>\<open>float\<close> is IEEE binary32, \<open>p = 24\<close>, and \<^verbatim>\<open>double\<close> is
  binary64, \<open>p = 53\<close>; a sum or product is the rounded exact result.
\<close>

definition pow2 :: "int \<Rightarrow> real" where
  "pow2 e = (if 0 \<le> e then 2 ^ nat e else 1 / 2 ^ nat (- e))"

text \<open>
  \<open>ilog2 x\<close> is the exponent \<open>e\<close> with \<open>2^e \<le> x < 2^(e+1)\<close> of a positive \<open>x\<close>, found by
  halving a number from 2 on and doubling a number below 1.
\<close>

function ilog2_up :: "real \<Rightarrow> int" where
  "ilog2_up x = (if 2 \<le> x then ilog2_up (x / 2) + 1 else 0)"
  by pat_completeness auto
termination
proof (relation "measure (\<lambda>x. nat \<lfloor>x\<rfloor>)")
  fix x :: real assume x: "2 \<le> x"
  have "x / 2 + 1 \<le> x" using x by simp
  then have "\<lfloor>x / 2\<rfloor> + 1 \<le> \<lfloor>x\<rfloor>" using floor_mono[of "x / 2 + 1" x] by simp
  moreover have "0 < \<lfloor>x\<rfloor>" using x by simp
  ultimately show "(x / 2, x) \<in> measure (\<lambda>x. nat \<lfloor>x\<rfloor>)" by simp
qed simp

function ilog2_down :: "real \<Rightarrow> int" where
  "ilog2_down x = (if 0 < x \<and> x < 1 then ilog2_down (2 * x) - 1 else 0)"
  by pat_completeness auto
termination
proof (relation "measure (\<lambda>x. nat \<lfloor>1 / x\<rfloor>)")
  fix x :: real assume x: "0 < x \<and> x < 1"
  define y where "y = 1 / x"
  have y: "1 < y" using x by (simp add: y_def)
  then have k: "1 \<le> \<lfloor>y\<rfloor>" by simp
  define kr where "kr = (of_int \<lfloor>y\<rfloor> :: real)"
  have a: "y < kr + 1" unfolding kr_def by linarith
  have b: "1 \<le> kr" unfolding kr_def using k by (simp only: of_int_1_le_iff)
  from a b have "y / 2 < kr" by argo
  then have "y / 2 < of_int \<lfloor>y\<rfloor>" by (simp only: kr_def)
  then have h: "\<lfloor>y / 2\<rfloor> < \<lfloor>y\<rfloor>" by (simp only: floor_less_iff)
  have e1: "1 / (2 * x) = y / 2" by (simp add: y_def)
  have e2: "1 / x = y" by (simp add: y_def)
  show "(2 * x, x) \<in> measure (\<lambda>x. nat \<lfloor>1 / x\<rfloor>)"
    unfolding in_measure e1 e2 using h k by linarith
qed simp

declare ilog2_up.simps [simp del] ilog2_down.simps [simp del]

definition ilog2 :: "real \<Rightarrow> int" where
  "ilog2 x = (if 1 \<le> x then ilog2_up x else ilog2_down x)"

definition round_even :: "real \<Rightarrow> int" where
  "round_even x =
     (let f = \<lfloor>x\<rfloor>; d = x - of_int f
      in if d < 1 / 2 then f else if 1 / 2 < d then f + 1 else if even f then f else f + 1)"

definition round_to :: "nat \<Rightarrow> real \<Rightarrow> real" where
  "round_to p x =
     (if x = 0 then 0
      else let e = ilog2 \<bar>x\<bar> - int p + 1 in of_int (round_even (x / pow2 e)) * pow2 e)"

datatype binary32 = B32 (val32: real)
datatype binary64 = B64 (val64: real)

instantiation binary32 :: "{plus,times}"
begin
definition plus_binary32 :: "binary32 \<Rightarrow> binary32 \<Rightarrow> binary32" where
  "plus_binary32 x y = B32 (round_to 24 (val32 x + val32 y))"
definition times_binary32 :: "binary32 \<Rightarrow> binary32 \<Rightarrow> binary32" where
  "times_binary32 x y = B32 (round_to 24 (val32 x * val32 y))"
instance ..
end

instantiation binary64 :: "{plus,times}"
begin
definition plus_binary64 :: "binary64 \<Rightarrow> binary64 \<Rightarrow> binary64" where
  "plus_binary64 x y = B64 (round_to 53 (val64 x + val64 y))"
definition times_binary64 :: "binary64 \<Rightarrow> binary64 \<Rightarrow> binary64" where
  "times_binary64 x y = B64 (round_to 53 (val64 x * val64 y))"
instance ..
end

section \<open>Loops: evaluation and proof rules\<close>

lemma for_loop_step:
  "i < n \<Longrightarrow> for_loop i n body s =
     (case body i s of None \<Rightarrow> None | Some s' \<Rightarrow> for_loop (i + 1) n body s')"
  by (subst for_loop.simps) simp

lemma for_loop_done: "\<not> i < n \<Longrightarrow> for_loop i n body s = Some s"
  by (subst for_loop.simps) simp

text \<open>Total correctness of a loop from an invariant that every iteration keeps.\<close>

lemma for_loop_total:
  assumes "a \<le> n" and "P a s"
    and "\<And>i s. a \<le> i \<Longrightarrow> i < n \<Longrightarrow> P i s \<Longrightarrow> \<exists>s'. body i s = Some s' \<and> P (i + 1) s'"
  shows "\<exists>s'. for_loop a n body s = Some s' \<and> P n s'"
  using assms
proof (induction a n body s rule: for_loop.induct)
  case (1 i n body s)
  show ?case
  proof (cases "i < n")
    case True
    from "1.prems"(3)[OF order_refl True "1.prems"(2)]
    obtain s1 where s1: "body i s = Some s1" "P (i + 1) s1" by blast
    have "\<exists>s'. for_loop (i + 1) n body s1 = Some s' \<and> P n s'"
    proof (rule "1.IH"[OF True s1(1)])
      show "i + 1 \<le> n" using True by simp
      show "P (i + 1) s1" by (rule s1(2))
      fix j t assume "i + 1 \<le> j" "j < n" "P j t"
      then show "\<exists>s'. body j t = Some s' \<and> P (j + 1) s'"
        using "1.prems"(3)[of j t] by simp
    qed
    then show ?thesis using True s1(1) by (simp add: for_loop_step)
  next
    case False
    with "1.prems"(1) have "i = n" by simp
    with "1.prems"(2) show ?thesis by (simp add: for_loop_done)
  qed
qed

text \<open>An invariant of the iterations holds of the result, when there is one.\<close>

lemma for_loop_inv:
  assumes "for_loop a n body s = Some t" and "P s"
    and "\<And>i s s'. a \<le> i \<Longrightarrow> i < n \<Longrightarrow> P s \<Longrightarrow> body i s = Some s' \<Longrightarrow> P s'"
  shows "P t"
  using assms
proof (induction a n body s rule: for_loop.induct)
  case (1 i n body s)
  show ?case
  proof (cases "i < n")
    case True
    from "1.prems"(1) True obtain s1 where s1: "body i s = Some s1"
      and rest: "for_loop (i + 1) n body s1 = Some t"
      by (auto simp: for_loop_step split: option.splits)
    have "P s1" using "1.prems"(3)[OF order_refl True "1.prems"(2) s1] .
    show ?thesis
    proof (rule "1.IH"[OF True s1 rest \<open>P s1\<close>])
      fix j u u' assume "i + 1 \<le> j" "j < n" "P u" "body j u = Some u'"
      then show "P u'" using "1.prems"(3)[of j u u'] by simp
    qed
  next
    case False
    with "1.prems"(1,2) show ?thesis by (simp add: for_loop_done)
  qed
qed

text \<open>An iteration that is undefined in every state makes the loop undefined.\<close>

lemma for_loop_undefined:
  assumes "a \<le> k" and "k < n" and "\<And>s. body k s = None"
  shows "for_loop a n body s = None"
  using assms
proof (induction a n body s rule: for_loop.induct)
  case (1 i n body s)
  have lt: "i < n" using "1.prems"(1,2) by simp
  show ?case
  proof (cases "body i s")
    case None
    then show ?thesis using lt by (simp add: for_loop_step)
  next
    case (Some s1)
    have "i \<noteq> k" using Some "1.prems"(3) by auto
    then have "i + 1 \<le> k" using "1.prems"(1) by simp
    from "1.IH"[OF lt Some this "1.prems"(2,3)]
    show ?thesis using lt Some by (simp add: for_loop_step)
  qed
qed

text \<open>Two nested loops: the invariant is indexed by both counters.\<close>

lemma for_loop2_total:
  assumes "a \<le> n" and "P a b s"
    and step: "\<And>i j s. a \<le> i \<Longrightarrow> i < n \<Longrightarrow> b \<le> j \<Longrightarrow> j < m \<Longrightarrow> P i j s
                 \<Longrightarrow> \<exists>s'. body i j s = Some s' \<and> P i (j + 1) s'"
    and row: "\<And>i s. a \<le> i \<Longrightarrow> i < n \<Longrightarrow> P i (max b m) s \<Longrightarrow> P (i + 1) b s"
  shows "\<exists>s'. for_loop a n (\<lambda>i. for_loop b m (body i)) s = Some s' \<and> P n b s'"
proof (rule for_loop_total[where P = "\<lambda>i s. P i b s", OF assms(1,2)])
  fix i s assume i: "a \<le> i" "i < n" and P: "P i b s"
  show "\<exists>s'. for_loop b m (body i) s = Some s' \<and> P (i + 1) b s'"
  proof (cases "b \<le> m")
    case True
    have "\<exists>s'. for_loop b m (body i) s = Some s' \<and> P i m s'"
      by (rule for_loop_total[where P = "\<lambda>j s. P i j s", OF True P]) (rule step[OF i])
    then show ?thesis using row[OF i] True by (auto simp: max_def)
  next
    case False
    then show ?thesis using row[OF i, of s] P by (simp add: for_loop_done max_def)
  qed
qed

lemma for_loop2_inv:
  assumes "for_loop a n (\<lambda>i. for_loop b m (body i)) s = Some t" and "P s"
    and step: "\<And>i j s s'. a \<le> i \<Longrightarrow> i < n \<Longrightarrow> b \<le> j \<Longrightarrow> j < m \<Longrightarrow> P s
                 \<Longrightarrow> body i j s = Some s' \<Longrightarrow> P s'"
  shows "P t"
proof (rule for_loop_inv[where P = P, OF assms(1,2)])
  fix i s s' assume i: "a \<le> i" "i < n" and Ps: "P s"
    and inner: "for_loop b m (body i) s = Some s'"
  show "P s'"
    by (rule for_loop_inv[where P = P, OF inner Ps]) (rule step[OF i])
qed


section \<open>Arrays, matrices and pointers to them\<close>

lemma rd_Some: "0 \<le> i \<Longrightarrow> i < int (length xs) \<Longrightarrow> rd xs i = Some (xs ! nat i)"
  by (simp add: rd_def)

lemma wr_Some: "0 \<le> i \<Longrightarrow> i < int (length xs) \<Longrightarrow> wr xs i v = Some (xs[nat i := v])"
  by (simp add: wr_def)

lemma nat_less_length [simp]: "0 \<le> i \<Longrightarrow> i < int n \<Longrightarrow> nat i < n"
  by linarith

lemma rd_Some_iff: "rd xs i = Some v \<longleftrightarrow> 0 \<le> i \<and> i < int (length xs) \<and> v = xs ! nat i"
  by (auto simp: rd_def)

lemma wr_Some_iff: "wr xs i v = Some ys \<longleftrightarrow> 0 \<le> i \<and> i < int (length xs) \<and> ys = xs[nat i := v]"
  by (auto simp: wr_def)

lemma rect_row: "rect h w M \<Longrightarrow> 0 \<le> i \<Longrightarrow> i < int h \<Longrightarrow> length (M ! nat i) = w"
  by (simp add: rect_def list_all_length)

lemma rd2_rect:
  "rect h w M \<Longrightarrow> 0 \<le> i \<Longrightarrow> i < int h \<Longrightarrow> 0 \<le> j \<Longrightarrow> j < int w \<Longrightarrow> rd2 M i j = Some (cell M i j)"
  by (simp add: rd2_def rd_def cell_def rect_def list_all_length)

lemma wr2_rect:
  "rect h w M \<Longrightarrow> 0 \<le> i \<Longrightarrow> i < int h \<Longrightarrow> 0 \<le> j \<Longrightarrow> j < int w
   \<Longrightarrow> wr2 M i j v = Some (set2 M i j v)"
  by (simp add: wr2_def rd_def wr_def set2_def rect_def list_all_length)

lemma rect_set2: "rect h w M \<Longrightarrow> rect h w (set2 M i j v)"
proof -
  assume r: "rect h w M"
  have "length ((set2 M i j v) ! n) = w" if "n < length M" for n
    using r that by (cases "n = nat i") (simp_all add: rect_def set2_def list_all_length)
  then show ?thesis using r by (simp add: rect_def set2_def list_all_length)
qed

lemma cell_set2:
  "rect h w M \<Longrightarrow> 0 \<le> i \<Longrightarrow> i < int h \<Longrightarrow> 0 \<le> j \<Longrightarrow> j < int w
   \<Longrightarrow> 0 \<le> i' \<Longrightarrow> 0 \<le> j'
   \<Longrightarrow> cell (set2 M i j v) i' j' = (if i' = i \<and> j' = j then v else cell M i' j')"
  by (auto simp: rect_def set2_def cell_def list_all_length nth_list_update)

lemma rd_map: "rd (map f M) i = map_option f (rd M i)"
  by (simp add: rd_def)

lemma load2_ptr2: "load2 (ptr2 M) i j = rd2 M i j"
  by (cases "rd M i") (simp_all add: load2_def ptr2_def rd2_def rd_map load_def)

lemma store2_ptr2: "store2 (ptr2 M) i j v = map_option ptr2 (wr2 M i j v)"
proof (cases "rd M i")
  case None
  then show ?thesis by (simp add: store2_def ptr2_def wr2_def rd_map load_def)
next
  case (Some row)
  show ?thesis
  proof (cases "wr row j v")
    case None
    then show ?thesis using Some
      by (simp add: store2_def ptr2_def wr2_def rd_map load_def store_def)
  next
    case (Some row')
    then show ?thesis using \<open>rd M i = Some row\<close>
      by (simp add: store2_def ptr2_def wr2_def rd_map load_def store_def wr_def map_update)
  qed
qed

lemma load2_store2_other:
  "store2 p i j v = Some p' \<Longrightarrow> i' \<noteq> i \<or> j' \<noteq> j \<Longrightarrow> load2 p' i' j' = load2 p i' j'"
  by (auto simp: store2_def store_def load2_def load_def rd_def wr_def nth_list_update
      split: bind_splits if_splits)

section \<open>kernel4.c reads past the end of its array\<close>

lemma kernel4_init_length:
  "\<exists>A. kernel4_init kernel4_A0 = Some A \<and> int (length A) = kernel4_ARRAY_SIZE"
proof -
  have "\<exists>A. for_loop 0 kernel4_ARRAY_SIZE (\<lambda>i A. wr A i i) kernel4_A0 = Some A
          \<and> int (length A) = kernel4_ARRAY_SIZE"
  proof (rule for_loop_total[where P = "\<lambda>i A. int (length A) = kernel4_ARRAY_SIZE"])
    show "0 \<le> kernel4_ARRAY_SIZE" by (simp add: kernel4_ARRAY_SIZE_def STRIDE_def NUM_ACCESSES_def)
    show "int (length kernel4_A0) = kernel4_ARRAY_SIZE"
      by (simp add: kernel4_A0_def kernel4_ARRAY_SIZE_def STRIDE_def NUM_ACCESSES_def)
    fix i and A :: "int list"
    assume "0 \<le> i" "i < kernel4_ARRAY_SIZE" "int (length A) = kernel4_ARRAY_SIZE"
    then show "\<exists>s'. wr A i i = Some s' \<and> int (length s') = kernel4_ARRAY_SIZE"
      by (simp add: wr_Some)
  qed
  then show ?thesis by (simp add: kernel4_init_def)
qed

lemma kernel4_block_last:
  assumes "int (length A) = kernel4_ARRAY_SIZE"
  shows "kernel4_block A 9984 acc = None"
  unfolding kernel4_block_def
proof (rule for_loop_undefined[where k = 16])
  show "(0::int) \<le> 16" by simp
  show "16 < BLOCK_SIZE" by (simp add: BLOCK_SIZE_def)
  fix s
  show "do { v \<leftarrow> rd A (kernel4_index 9984 16); Some (s + v) } = None"
    using assms
    by (simp add: rd_def kernel4_index_def kernel4_ARRAY_SIZE_def STRIDE_def NUM_ACCESSES_def)
qed

lemma kernel4_blocks_undefined:
  "int (length A) = kernel4_ARRAY_SIZE \<Longrightarrow> block \<le> 9984 \<Longrightarrow> (9984 - block) mod 64 = 0
   \<Longrightarrow> kernel4_blocks A block acc = None"
proof (induction A block acc rule: kernel4_blocks.induct)
  case (1 A block acc)
  have lt: "block < NUM_ACCESSES" using "1.prems"(2) by (simp add: NUM_ACCESSES_def)
  show ?case
  proof (cases "kernel4_block A block acc")
    case None
    then show ?thesis using lt by (subst kernel4_blocks.simps) simp
  next
    case (Some acc')
    have ne: "block \<noteq> 9984"
      using Some kernel4_block_last[OF "1.prems"(1), of acc] by auto
    have le: "block + BLOCK_SIZE \<le> 9984"
      using ne "1.prems"(2,3) unfolding BLOCK_SIZE_def by presburger
    have md: "(9984 - (block + BLOCK_SIZE)) mod 64 = 0"
      using "1.prems"(3) unfolding BLOCK_SIZE_def by presburger
    from "1.IH"[OF lt Some "1.prems"(1) le md]
    show ?thesis using lt Some by (subst kernel4_blocks.simps) simp
  qed
qed

text \<open>
  C3. The claim: for every block in \<open>{0, 64, 128, ...}\<close> below \<open>NUM_ACCESSES\<close> and every
  \<open>i\<close> in \<open>[0, BLOCK_SIZE)\<close> the read index \<open>(block + i) * STRIDE\<close> is below
  \<open>kernel4_ARRAY_SIZE\<close>. The code breaks it: \<open>NUM_ACCESSES = 10000\<close> is no multiple of
  \<open>BLOCK_SIZE = 64\<close>, so the last block starts at \<open>9984\<close> and its iteration \<open>i = 16\<close>
  reads \<open>A[40960000]\<close>, one past the last element. The program has undefined behaviour
  on every run: \<open>main\<close> has no defined result.
\<close>

theorem kernel4_reads_out_of_bounds:
  "kernel4_main = None
   \<and> (9984::int) mod BLOCK_SIZE = 0 \<and> 9984 < NUM_ACCESSES \<and> (0::int) \<le> 16 \<and> 16 < BLOCK_SIZE
   \<and> kernel4_index 9984 16 = kernel4_ARRAY_SIZE"
proof -
  obtain A where A: "kernel4_init kernel4_A0 = Some A" "int (length A) = kernel4_ARRAY_SIZE"
    using kernel4_init_length by blast
  have "kernel4_blocks A 0 0 = None"
    by (rule kernel4_blocks_undefined[OF A(2)]) simp_all
  then have "kernel4_main = None" using A(1) by (simp add: kernel4_main_def)
  then show ?thesis
    by (simp add: BLOCK_SIZE_def NUM_ACCESSES_def kernel4_index_def kernel4_ARRAY_SIZE_def STRIDE_def)
qed

section \<open>image_blur_unopt.c: initialisation and the frame of the blur\<close>

lemma smod_nonneg: "0 \<le> a \<Longrightarrow> 0 < b \<Longrightarrow> a smod b = a mod (b::int)"
  by (simp add: signed_modulo_int_def sgn_if)

lemma sdiv_nonneg: "0 \<le> a \<Longrightarrow> 0 < b \<Longrightarrow> a sdiv b = a div (b::int)"
  by (simp add: signed_divide_int_def sgn_if)

lemma initialize_image_total:
  fixes M :: "uchar list list"
  assumes M: "rect (nat height) (nat width) M"
  shows "\<exists>M'. initialize_image (ptr2 M) width height = Some (ptr2 M')
           \<and> rect (nat height) (nat width) M'
           \<and> (\<forall>x y. 0 \<le> x \<and> x < width \<and> 0 \<le> y \<and> y < height
                \<longrightarrow> cell M' y x = word_of_int ((x + y) mod 256))"
proof (cases "0 \<le> width")
  case False
  then show ?thesis using M by (auto simp: initialize_image_def for_loop_done)
next
  case True
  define P where "P x y img \<longleftrightarrow> (\<exists>M'. img = ptr2 M' \<and> rect (nat height) (nat width) M'
      \<and> (\<forall>x' y'. 0 \<le> x' \<and> x' < width \<and> 0 \<le> y' \<and> y' < height \<and> (x' < x \<or> x' = x \<and> y' < y)
            \<longrightarrow> cell M' y' x' = word_of_int ((x' + y') mod 256)))" for x y and img :: "uchar ptr ptr"
  have "\<exists>img'. for_loop 0 width (\<lambda>x. for_loop 0 height (\<lambda>y img.
       store2 img y x (word_of_int ((x + y) smod 256)))) (ptr2 M) = Some img' \<and> P width 0 img'"
  proof (rule for_loop2_total[where P = P, OF True])
    show "P 0 0 (ptr2 M)" using M unfolding P_def by auto
  next
    fix x y img
    assume x: "0 \<le> x" "x < width" and y: "0 \<le> y" "y < height" and "P x y img"
    then obtain M' where M': "img = ptr2 M'" "rect (nat height) (nat width) M'"
      and old: "\<And>x' y'. 0 \<le> x' \<Longrightarrow> x' < width \<Longrightarrow> 0 \<le> y' \<Longrightarrow> y' < height
                 \<Longrightarrow> x' < x \<or> x' = x \<and> y' < y \<Longrightarrow> cell M' y' x' = word_of_int ((x' + y') mod 256)"
      unfolding P_def by blast
    let ?v = "word_of_int ((x + y) smod 256) :: uchar"
    have st: "store2 img y x ?v = Some (ptr2 (set2 M' y x ?v))"
      using M' x y by (simp add: store2_ptr2 wr2_rect)
    have "P x (y + 1) (ptr2 (set2 M' y x ?v))"
      unfolding P_def
    proof (intro exI conjI allI impI)
      show "ptr2 (set2 M' y x ?v) = ptr2 (set2 M' y x ?v)" by simp
      show "rect (nat height) (nat width) (set2 M' y x ?v)" by (rule rect_set2[OF M'(2)])
      fix x' y'
      assume h: "0 \<le> x' \<and> x' < width \<and> 0 \<le> y' \<and> y' < height \<and> (x' < x \<or> x' = x \<and> y' < y + 1)"
      show "cell (set2 M' y x ?v) y' x' = word_of_int ((x' + y') mod 256)"
      proof (cases "y' = y \<and> x' = x")
        case True
        then show ?thesis using M'(2) x y by (simp add: cell_set2 smod_nonneg)
      next
        case False
        then have "cell (set2 M' y x ?v) y' x' = cell M' y' x'"
          using M'(2) x y h by (auto simp: cell_set2)
        moreover have "x' < x \<or> x' = x \<and> y' < y" using h False by auto
        ultimately show ?thesis using old h by simp
      qed
    qed
    with st show "\<exists>s'. store2 img y x ?v = Some s' \<and> P x (y + 1) s'" by blast
  next
    fix x and img :: "uchar ptr ptr"
    assume "0 \<le> x" "x < width" "P x (max 0 height) img"
    then obtain M' where M': "img = ptr2 M'" "rect (nat height) (nat width) M'"
      and old: "\<And>x' y'. 0 \<le> x' \<Longrightarrow> x' < width \<Longrightarrow> 0 \<le> y' \<Longrightarrow> y' < height
                 \<Longrightarrow> x' < x \<or> x' = x \<and> y' < max 0 height
                 \<Longrightarrow> cell M' y' x' = word_of_int ((x' + y') mod 256)"
      unfolding P_def by blast
    have "cell M' y' x' = word_of_int ((x' + y') mod 256)"
      if "0 \<le> x' \<and> x' < width \<and> 0 \<le> y' \<and> y' < height \<and> (x' < x + 1 \<or> x' = x + 1 \<and> y' < 0)"
      for x' y'
      using that by (intro old) auto
    with M' show "P (x + 1) 0 img" unfolding P_def by blast
  qed
  then show ?thesis unfolding initialize_image_def P_def by auto
qed

text \<open>
  C10. After \<open>initialize_image(image, width, height)\<close> on an allocated image of \<open>height\<close>
  rows of \<open>width\<close> pixels, whatever it held, the call returns and every pixel
  \<open>image[y][x]\<close> with \<open>0 \<le> x < width\<close> and \<open>0 \<le> y < height\<close> equals \<open>(x + y) mod 256\<close>.
\<close>

theorem initialize_image_pixels:
  assumes "rect (nat height) (nat width) M"
    and "0 \<le> x" "x < width" "0 \<le> y" "y < height"
  shows "\<exists>img'. initialize_image (ptr2 M) width height = Some img'
           \<and> map_option uint (load2 img' y x) = Some ((x + y) mod 256)"
proof -
  from initialize_image_total[OF assms(1)] obtain M' where
    M': "initialize_image (ptr2 M) width height = Some (ptr2 M')"
      "rect (nat height) (nat width) M'"
      "\<And>x y. 0 \<le> x \<and> x < width \<and> 0 \<le> y \<and> y < height
          \<Longrightarrow> cell M' y x = word_of_int ((x + y) mod 256)"
    by blast
  have "load2 (ptr2 M') y x = Some (cell M' y x)"
    using M'(2) assms(2-5) by (simp add: load2_ptr2 rd2_rect)
  moreover have "uint (word_of_int ((x + y) mod 256) :: uchar) = (x + y) mod 256"
    by (simp add: uint_word_of_int take_bit_eq_mod)
  ultimately show ?thesis using M'(1) M'(3)[of x y] assms(2-5) by simp
qed

theorem initialize_image_pixels_witness:
  "rect (nat 2) (nat 3) [[7, 7, 7], [7, 7, 7]] \<and> (0::int) \<le> 2 \<and> (2::int) < 3 \<and> (0::int) \<le> 1 \<and> (1::int) < 2
   \<and> (\<exists>img'. initialize_image (ptr2 [[7, 7, 7], [7, 7, 7]]) 3 2 = Some img'
           \<and> map_option uint (load2 img' 1 2) = Some 3)"
  using initialize_image_pixels[of 2 3 "[[7, 7, 7], [7, 7, 7]]" 2 1]
  by (simp add: rect_def)

text \<open>
  C8. \<open>image_blur\<close> writes interior pixels only: when the call returns, every pixel
  \<open>output[y][x]\<close> with \<open>x < 2\<close>, \<open>x \<ge> width - 2\<close>, \<open>y < 2\<close> or \<open>y \<ge> height - 2\<close> is what
  it was before the call (also a row pointer that was null is null still).
\<close>

theorem image_blur_frame:
  assumes "image_blur input output width height = Some output'"
    and "\<not> (2 \<le> x \<and> x < width - 2 \<and> 2 \<le> y \<and> y < height - 2)"
  shows "load2 output' y x = load2 output y x"
proof -
  let ?P = "\<lambda>out. load2 out y x = load2 output y x"
  have off: "KERNEL_SIZE sdiv 2 = 2" by (simp add: KERNEL_SIZE_def signed_divide_int_def)
  from assms(1) have run: "for_loop 2 (width - 2) (\<lambda>x. for_loop 2 (height - 2) (\<lambda>y output. do {
        acc \<leftarrow> for_loop (- 2) (2 + 1) (\<lambda>kx. for_loop (- 2) (2 + 1)
          (\<lambda>ky acc. do {
             p \<leftarrow> load2 input (y + ky) (x + kx);
             c \<leftarrow> rd2 blur_kernel (ky + 2) (kx + 2);
             Some (acc + uint p * c)
           })) 0;
        store2 output y x (word_of_int (acc sdiv 35))
      })) output = Some output'"
    unfolding image_blur_def Let_def off by simp
  show ?thesis
  proof (rule for_loop2_inv[where P = ?P, OF run])
    show "load2 output y x = load2 output y x" by simp
  next
    fix i j s s'
    assume i: "2 \<le> i" "i < width - 2" and j: "2 \<le> j" "j < height - 2"
      and P: "load2 s y x = load2 output y x"
      and body: "do {
        acc \<leftarrow> for_loop (- 2) (2 + 1) (\<lambda>kx. for_loop (- 2) (2 + 1)
          (\<lambda>ky acc. do {
             p \<leftarrow> load2 input (j + ky) (i + kx);
             c \<leftarrow> rd2 blur_kernel (ky + 2) (kx + 2);
             Some (acc + uint p * c)
           })) 0;
        store2 s j i (word_of_int (acc sdiv 35)) } = Some s'"
    from body obtain v where "store2 s j i v = Some s'"
      by (auto split: bind_splits)
    moreover have "y \<noteq> j \<or> x \<noteq> i" using assms(2) i j by auto
    ultimately have "load2 s' y x = load2 s y x" by (rule load2_store2_other)
    with P show "load2 s' y x = load2 output y x" by simp
  qed
qed

theorem image_blur_frame_witness:
  "image_blur (ptr2 (replicate 5 (replicate 5 1))) (ptr2 (replicate 5 (replicate 5 9))) 5 5
     = Some (ptr2 [[9,9,9,9,9],[9,9,9,9,9],[9,9,1,9,9],[9,9,9,9,9],[9,9,9,9,9]])
   \<and> \<not> (2 \<le> (3::int) \<and> (3::int) < 5 - 2 \<and> 2 \<le> (2::int) \<and> (2::int) < 5 - 2)
   \<and> load2 (ptr2 [[9,9,9,9,9],[9,9,9,9,9],[9,9,1,9,9],[9,9,9,9,9],[9,9,9,9,9]]) 2 3
       = load2 (ptr2 (replicate 5 (replicate 5 (9::uchar)))) 2 3"
proof -
  have run: "image_blur (ptr2 (replicate 5 (replicate 5 1))) (ptr2 (replicate 5 (replicate 5 9))) 5 5
     = Some (ptr2 [[9,9,9,9,9],[9,9,9,9,9],[9,9,1,9,9],[9,9,9,9,9],[9,9,9,9,9]])"
    by (simp add: image_blur_def KERNEL_SIZE_def signed_divide_int_def for_loop_step for_loop_done
        load2_ptr2 store2_ptr2 rd2_def wr2_def rd_def wr_def blur_kernel_def numeral_eq_Suc)
  have border: "\<not> (2 \<le> (3::int) \<and> (3::int) < 5 - 2 \<and> 2 \<le> (2::int) \<and> (2::int) < 5 - 2)"
    by simp
  from image_blur_frame[OF run border] run border show ?thesis by simp
qed

section \<open>mmm.c and matrix_mult_unopt.c: both loop orders compute the same products\<close>

lemma dot_0: "dot A B c i j 0 = c"
  by (simp add: dot_def)

lemma dot_step: "0 \<le> k \<Longrightarrow> dot A B c i j (nat (k + 1)) = dot A B c i j (nat k) + cell A i k * cell B k j"
  by (simp add: dot_def nat_add_distrib)

lemma rect_cell_eq:
  assumes "rect h w M" "rect h w M'"
    and "\<And>i j. 0 \<le> i \<Longrightarrow> i < int h \<Longrightarrow> 0 \<le> j \<Longrightarrow> j < int w \<Longrightarrow> cell M i j = cell M' i j"
  shows "M = M'"
proof (rule nth_equalityI)
  show "length M = length M'" using assms(1,2) by (simp add: rect_def)
  fix i assume i: "i < length M"
  then have ih: "i < h" using assms(1) by (simp add: rect_def)
  show "M ! i = M' ! i"
  proof (rule nth_equalityI)
    show "length (M ! i) = length (M' ! i)"
      using assms(1,2) ih by (simp add: rect_def list_all_length)
    fix j assume "j < length (M ! i)"
    then have "j < w" using assms(1) ih by (simp add: rect_def list_all_length)
    with assms(3)[of "int i" "int j"] ih show "M ! i ! j = M' ! i ! j"
      by (simp add: cell_def)
  qed
qed

lemma matrix_multiply_naive_total:
  fixes A B C0 :: "('a::{plus,times}) list list"
  assumes A: "rect (nat n) (nat n) A" and B: "rect (nat n) (nat n) B"
    and C: "rect (nat n) (nat n) C0"
  shows "\<exists>C'. matrix_multiply_naive n \<lparr>mmm_A = A, mmm_B = B, mmm_C = C0\<rparr>
               = Some \<lparr>mmm_A = A, mmm_B = B, mmm_C = C'\<rparr>
           \<and> rect (nat n) (nat n) C'
           \<and> (\<forall>i j. 0 \<le> i \<and> i < n \<and> 0 \<le> j \<and> j < n
                \<longrightarrow> cell C' i j = dot A B (cell C0 i j) i j (nat n))"
proof (cases "0 \<le> n")
  case False
  then show ?thesis using C by (auto simp: matrix_multiply_naive_def for_loop_done)
next
  case n0: True
  let ?full = "\<lambda>i j. dot A B (cell C0 i j) i j (nat n)"
  define inv where "inv f g \<longleftrightarrow> mmm_A g = A \<and> mmm_B g = B \<and> rect (nat n) (nat n) (mmm_C g)
      \<and> (\<forall>i j. 0 \<le> i \<and> i < n \<and> 0 \<le> j \<and> j < n \<longrightarrow> cell (mmm_C g) i j = f i j)"
    for f and g :: "'a mmm_globals"
  define P where "P i j = inv (\<lambda>i' j'. if i' < i \<or> i' = i \<and> j' < j then ?full i' j' else cell C0 i' j')"
    for i j :: int
  define Q where "Q i j k = inv (\<lambda>i' j'. if i' < i \<or> i' = i \<and> j' < j then ?full i' j'
      else if i' = i \<and> j' = j then dot A B (cell C0 i j) i j (nat k) else cell C0 i' j')"
    for i j k :: int
  let ?body = "\<lambda>i j k g. do {
       c \<leftarrow> rd2 (mmm_C g) i j;
       a \<leftarrow> rd2 (mmm_A g) i k;
       b \<leftarrow> rd2 (mmm_B g) k j;
       C' \<leftarrow> wr2 (mmm_C g) i j (c + a * b);
       Some (g\<lparr>mmm_C := C'\<rparr>)
     }"
  have "\<exists>g'. for_loop 0 n (\<lambda>i. for_loop 0 n (\<lambda>j. for_loop 0 n (?body i j)))
          \<lparr>mmm_A = A, mmm_B = B, mmm_C = C0\<rparr> = Some g' \<and> P n 0 g'"
  proof (rule for_loop2_total[where P = P, OF n0])
    show "P 0 0 \<lparr>mmm_A = A, mmm_B = B, mmm_C = C0\<rparr>"
      using C by (auto simp: P_def inv_def)
  next
    fix i j g
    assume i: "0 \<le> i" "i < n" and j: "0 \<le> j" "j < n" and P: "P i j g"
    have "\<exists>g'. for_loop 0 n (?body i j) g = Some g' \<and> Q i j n g'"
    proof (rule for_loop_total[where P = "Q i j", OF n0])
      show "Q i j 0 g" using P by (auto simp: P_def Q_def inv_def dot_0)
    next
      fix k g
      assume k: "0 \<le> k" "k < n" and Q: "Q i j k g"
      from Q have g: "mmm_A g = A" "mmm_B g = B" "rect (nat n) (nat n) (mmm_C g)"
        and cij: "cell (mmm_C g) i j = dot A B (cell C0 i j) i j (nat k)"
        using i j by (auto simp: Q_def inv_def)
      let ?v = "cell (mmm_C g) i j + cell A i k * cell B k j"
      have run: "?body i j k g = Some (g\<lparr>mmm_C := set2 (mmm_C g) i j ?v\<rparr>)"
        using g A B i j k by (simp add: rd2_rect wr2_rect)
      have "Q i j (k + 1) (g\<lparr>mmm_C := set2 (mmm_C g) i j ?v\<rparr>)"
        unfolding Q_def inv_def
      proof (intro conjI allI impI)
        fix i' j' assume r: "0 \<le> i' \<and> i' < n \<and> 0 \<le> j' \<and> j' < n"
        have old: "cell (mmm_C g) i' j' = (if i' < i \<or> i' = i \<and> j' < j then ?full i' j'
            else if i' = i \<and> j' = j then dot A B (cell C0 i j) i j (nat k) else cell C0 i' j')"
          using Q r by (simp add: Q_def inv_def)
        show "cell (mmm_C (g\<lparr>mmm_C := set2 (mmm_C g) i j ?v\<rparr>)) i' j' =
            (if i' < i \<or> i' = i \<and> j' < j then ?full i' j'
             else if i' = i \<and> j' = j then dot A B (cell C0 i j) i j (nat (k + 1)) else cell C0 i' j')"
        proof (cases "i' = i \<and> j' = j")
          case True
          then show ?thesis using g(3) i j k cij by (simp add: cell_set2 dot_step)
        next
          case False
          then have "cell (set2 (mmm_C g) i j ?v) i' j' = cell (mmm_C g) i' j'"
            using g(3) i j r by (auto simp: cell_set2)
          then show ?thesis using old False by auto
        qed
      qed (use g in \<open>simp_all add: rect_set2\<close>)
      with run show "\<exists>s'. ?body i j k g = Some s' \<and> Q i j (k + 1) s'" by blast
    qed
    then obtain g' where g': "for_loop 0 n (?body i j) g = Some g'" "Q i j n g'" by blast
    have "P i (j + 1) g'"
      unfolding P_def inv_def
    proof (intro conjI allI impI)
      fix i' j' assume r: "0 \<le> i' \<and> i' < n \<and> 0 \<le> j' \<and> j' < n"
      have "cell (mmm_C g') i' j' = (if i' < i \<or> i' = i \<and> j' < j then ?full i' j'
            else if i' = i \<and> j' = j then dot A B (cell C0 i j) i j (nat n) else cell C0 i' j')"
        using g'(2) r by (simp add: Q_def inv_def)
      then show "cell (mmm_C g') i' j' =
          (if i' < i \<or> i' = i \<and> j' < j + 1 then ?full i' j' else cell C0 i' j')"
        by auto
    qed (use g'(2) in \<open>simp_all add: Q_def inv_def\<close>)
    with g'(1) show "\<exists>s'. for_loop 0 n (?body i j) g = Some s' \<and> P i (j + 1) s'" by blast
  next
    fix i g assume i: "0 \<le> i" "i < n" and P: "P i (max 0 n) g"
    show "P (i + 1) 0 g"
      unfolding P_def inv_def
    proof (intro conjI allI impI)
      fix i' j' assume r: "0 \<le> i' \<and> i' < n \<and> 0 \<le> j' \<and> j' < n"
      have "cell (mmm_C g) i' j' = (if i' < i \<or> i' = i \<and> j' < max 0 n then ?full i' j' else cell C0 i' j')"
        using P r by (simp add: P_def inv_def)
      then show "cell (mmm_C g) i' j' = (if i' < i + 1 \<or> i' = i + 1 \<and> j' < 0 then ?full i' j' else cell C0 i' j')"
        using r by auto
    qed (use P in \<open>simp_all add: P_def inv_def\<close>)
  qed
  then obtain g' where g': "matrix_multiply_naive n \<lparr>mmm_A = A, mmm_B = B, mmm_C = C0\<rparr> = Some g'"
    "P n 0 g'"
    by (auto simp: matrix_multiply_naive_def)
  have "g' = \<lparr>mmm_A = A, mmm_B = B, mmm_C = mmm_C g'\<rparr>"
    using g'(2) by (simp add: P_def inv_def)
  moreover have "rect (nat n) (nat n) (mmm_C g')" using g'(2) by (simp add: P_def inv_def)
  moreover have "\<forall>i j. 0 \<le> i \<and> i < n \<and> 0 \<le> j \<and> j < n \<longrightarrow> cell (mmm_C g') i j = ?full i j"
    using g'(2) by (simp add: P_def inv_def)
  ultimately show ?thesis using g'(1) by metis
qed

lemma matrix_multiply_total:
  fixes A B C0 :: "('a::{plus,times}) list list"
  assumes A: "rect (nat n) (nat n) A" and B: "rect (nat n) (nat n) B"
    and C: "rect (nat n) (nat n) C0"
  shows "\<exists>C'. matrix_multiply (ptr2 A) (ptr2 B) (ptr2 C0) n = Some (ptr2 C')
           \<and> rect (nat n) (nat n) C'
           \<and> (\<forall>i j. 0 \<le> i \<and> i < n \<and> 0 \<le> j \<and> j < n
                \<longrightarrow> cell C' i j = dot A B (cell C0 i j) i j (nat n))"
proof (cases "0 \<le> n")
  case False
  then show ?thesis using C by (auto simp: matrix_multiply_def for_loop_done)
next
  case n0: True
  let ?part = "\<lambda>i j k. dot A B (cell C0 i j) i j (nat k)"
  define inv where "inv f p \<longleftrightarrow> (\<exists>M. p = ptr2 M \<and> rect (nat n) (nat n) M
      \<and> (\<forall>i j. 0 \<le> i \<and> i < n \<and> 0 \<le> j \<and> j < n \<longrightarrow> cell M i j = f i j))"
    for f and p :: "'a ptr ptr"
  define P where "P i k = inv (\<lambda>i' j'. if i' < i then ?part i' j' n
      else if i' = i then ?part i' j' k else cell C0 i' j')"
    for i k :: int
  define Q where "Q i k j = inv (\<lambda>i' j'. if i' < i then ?part i' j' n
      else if i' = i then (if j' < j then ?part i' j' (k + 1) else ?part i' j' k) else cell C0 i' j')"
    for i j k :: int
  let ?body = "\<lambda>i k j C. do {
       c \<leftarrow> load2 C i j;
       a \<leftarrow> load2 (ptr2 A) i k;
       b \<leftarrow> load2 (ptr2 B) k j;
       store2 C i j (c + a * b)
     }"
  have "\<exists>p. for_loop 0 n (\<lambda>i. for_loop 0 n (\<lambda>k. for_loop 0 n (?body i k))) (ptr2 C0) = Some p
          \<and> P n 0 p"
  proof (rule for_loop2_total[where P = P, OF n0])
    show "P 0 0 (ptr2 C0)"
      using C by (auto simp: P_def inv_def dot_0)
  next
    fix i k p
    assume i: "0 \<le> i" "i < n" and k: "0 \<le> k" "k < n" and P: "P i k p"
    have "\<exists>p'. for_loop 0 n (?body i k) p = Some p' \<and> Q i k n p'"
    proof (rule for_loop_total[where P = "Q i k", OF n0])
      show "Q i k 0 p" using P by (auto simp: P_def Q_def inv_def)
    next
      fix j p
      assume j: "0 \<le> j" "j < n" and Q: "Q i k j p"
      from Q obtain M where M: "p = ptr2 M" "rect (nat n) (nat n) M"
        and old: "\<And>i' j'. 0 \<le> i' \<and> i' < n \<and> 0 \<le> j' \<and> j' < n \<Longrightarrow> cell M i' j' =
            (if i' < i then ?part i' j' n
             else if i' = i then (if j' < j then ?part i' j' (k + 1) else ?part i' j' k)
             else cell C0 i' j')"
        unfolding Q_def inv_def by blast
      have cij: "cell M i j = ?part i j k" using old[of i j] i j by simp
      let ?v = "cell M i j + cell A i k * cell B k j"
      have run: "?body i k j p = Some (ptr2 (set2 M i j ?v))"
        using M A B i j k by (simp add: load2_ptr2 store2_ptr2 rd2_rect wr2_rect)
      have "Q i k (j + 1) (ptr2 (set2 M i j ?v))"
        unfolding Q_def inv_def
      proof (intro exI conjI allI impI)
        show "ptr2 (set2 M i j ?v) = ptr2 (set2 M i j ?v)" by simp
        show "rect (nat n) (nat n) (set2 M i j ?v)" using M(2) by (rule rect_set2)
        fix i' j' assume r: "0 \<le> i' \<and> i' < n \<and> 0 \<le> j' \<and> j' < n"
        show "cell (set2 M i j ?v) i' j' =
            (if i' < i then ?part i' j' n
             else if i' = i then (if j' < j + 1 then ?part i' j' (k + 1) else ?part i' j' k)
             else cell C0 i' j')"
        proof (cases "i' = i \<and> j' = j")
          case True
          then show ?thesis using M(2) i j k cij by (simp add: cell_set2 dot_step)
        next
          case False
          then have "cell (set2 M i j ?v) i' j' = cell M i' j'"
            using M(2) i j r by (auto simp: cell_set2)
          then show ?thesis using old[OF r] False by auto
        qed
      qed
      with run show "\<exists>s'. ?body i k j p = Some s' \<and> Q i k (j + 1) s'" by blast
    qed
    then obtain p' where p': "for_loop 0 n (?body i k) p = Some p'" "Q i k n p'" by blast
    from p'(2) obtain M where M: "p' = ptr2 M" "rect (nat n) (nat n) M"
      and old: "\<And>i' j'. 0 \<le> i' \<and> i' < n \<and> 0 \<le> j' \<and> j' < n \<Longrightarrow> cell M i' j' =
          (if i' < i then ?part i' j' n
           else if i' = i then (if j' < n then ?part i' j' (k + 1) else ?part i' j' k)
           else cell C0 i' j')"
      unfolding Q_def inv_def by blast
    have "cell M i' j' = (if i' < i then ?part i' j' n
        else if i' = i then ?part i' j' (k + 1) else cell C0 i' j')"
      if "0 \<le> i' \<and> i' < n \<and> 0 \<le> j' \<and> j' < n" for i' j'
      using old[OF that] that by auto
    with M have "P i (k + 1) p'" unfolding P_def inv_def by blast
    with p'(1) show "\<exists>s'. for_loop 0 n (?body i k) p = Some s' \<and> P i (k + 1) s'" by blast
  next
    fix i p assume i: "0 \<le> i" "i < n" and P: "P i (max 0 n) p"
    from P obtain M where M: "p = ptr2 M" "rect (nat n) (nat n) M"
      and old: "\<And>i' j'. 0 \<le> i' \<and> i' < n \<and> 0 \<le> j' \<and> j' < n \<Longrightarrow> cell M i' j' =
          (if i' < i then ?part i' j' n
           else if i' = i then ?part i' j' (max 0 n) else cell C0 i' j')"
      unfolding P_def inv_def by blast
    have "cell M i' j' = (if i' < i + 1 then ?part i' j' n
        else if i' = i + 1 then ?part i' j' 0 else cell C0 i' j')"
      if "0 \<le> i' \<and> i' < n \<and> 0 \<le> j' \<and> j' < n" for i' j'
      using old[OF that] that n0 by (auto simp: dot_0 max_def)
    with M show "P (i + 1) 0 p" unfolding P_def inv_def by blast
  qed
  then obtain p where p: "matrix_multiply (ptr2 A) (ptr2 B) (ptr2 C0) n = Some p" "P n 0 p"
    by (auto simp: matrix_multiply_def)
  from p(2) obtain M where M: "p = ptr2 M" "rect (nat n) (nat n) M"
      and fin: "\<And>i' j'. 0 \<le> i' \<and> i' < n \<and> 0 \<le> j' \<and> j' < n \<Longrightarrow> cell M i' j' =
          (if i' < n then ?part i' j' n
           else if i' = n then ?part i' j' 0 else cell C0 i' j')"
      unfolding P_def inv_def by blast
  have "\<forall>i j. 0 \<le> i \<and> i < n \<and> 0 \<le> j \<and> j < n \<longrightarrow> cell M i j = ?part i j n"
    using fin by auto
  with p(1) M show ?thesis by blast
qed









lemma init_matrices_total:
  fixes g0 :: "'a mmm_globals"
  assumes A: "rect (nat n) (nat n) (mmm_A g0)" and B: "rect (nat n) (nat n) (mmm_B g0)"
    and C: "rect (nat n) (nat n) (mmm_C g0)"
  shows "\<exists>g. init_matrices fl n g0 = Some g
           \<and> rect (nat n) (nat n) (mmm_A g) \<and> rect (nat n) (nat n) (mmm_B g)
           \<and> rect (nat n) (nat n) (mmm_C g)
           \<and> (\<forall>i j. 0 \<le> i \<and> i < n \<and> 0 \<le> j \<and> j < n
                \<longrightarrow> cell (mmm_A g) i j = fl (of_int (i + j))
                  \<and> cell (mmm_B g) i j = fl (of_int (i - j))
                  \<and> cell (mmm_C g) i j = fl 0)"
proof (cases "0 \<le> n")
  case False
  then show ?thesis using assms by (auto simp: init_matrices_def for_loop_done)
next
  case n0: True
  define P where "P i j g \<longleftrightarrow> rect (nat n) (nat n) (mmm_A g) \<and> rect (nat n) (nat n) (mmm_B g)
      \<and> rect (nat n) (nat n) (mmm_C g)
      \<and> (\<forall>i' j'. 0 \<le> i' \<and> i' < n \<and> 0 \<le> j' \<and> j' < n \<and> (i' < i \<or> i' = i \<and> j' < j)
            \<longrightarrow> cell (mmm_A g) i' j' = fl (of_int (i' + j'))
              \<and> cell (mmm_B g) i' j' = fl (of_int (i' - j'))
              \<and> cell (mmm_C g) i' j' = fl 0)"
    for i j and g :: "'a mmm_globals"
  let ?body = "\<lambda>i j g. do {
       A' \<leftarrow> wr2 (mmm_A g) i j (fl (of_int (i + j)));
       B' \<leftarrow> wr2 (mmm_B g) i j (fl (of_int (i - j)));
       C' \<leftarrow> wr2 (mmm_C g) i j (fl 0);
       Some \<lparr>mmm_A = A', mmm_B = B', mmm_C = C'\<rparr>
     }"
  have "\<exists>g. for_loop 0 n (\<lambda>i. for_loop 0 n (?body i)) g0 = Some g \<and> P n 0 g"
  proof (rule for_loop2_total[where P = P, OF n0])
    show "P 0 0 g0" using assms by (auto simp: P_def)
  next
    fix i j g
    assume i: "0 \<le> i" "i < n" and j: "0 \<le> j" "j < n" and P: "P i j g"
    from P have r: "rect (nat n) (nat n) (mmm_A g)" "rect (nat n) (nat n) (mmm_B g)"
      "rect (nat n) (nat n) (mmm_C g)"
      by (simp_all add: P_def)
    let ?g' = "\<lparr>mmm_A = set2 (mmm_A g) i j (fl (of_int (i + j))),
               mmm_B = set2 (mmm_B g) i j (fl (of_int (i - j))),
               mmm_C = set2 (mmm_C g) i j (fl 0)\<rparr>"
    have run: "?body i j g = Some ?g'" using r i j by (simp add: wr2_rect)
    have "P i (j + 1) ?g'"
      unfolding P_def
    proof (intro conjI allI impI)
      fix i' j'
      assume h: "0 \<le> i' \<and> i' < n \<and> 0 \<le> j' \<and> j' < n \<and> (i' < i \<or> i' = i \<and> j' < j + 1)"
      have old: "cell (mmm_A g) i' j' = fl (of_int (i' + j'))
              \<and> cell (mmm_B g) i' j' = fl (of_int (i' - j'))
              \<and> cell (mmm_C g) i' j' = fl 0" if "\<not> (i' = i \<and> j' = j)"
        using P h that by (auto simp: P_def)
      show "cell (mmm_A ?g') i' j' = fl (of_int (i' + j'))"
        using old r i j h by (cases "i' = i \<and> j' = j") (auto simp: cell_set2)
      show "cell (mmm_B ?g') i' j' = fl (of_int (i' - j'))"
        using old r i j h by (cases "i' = i \<and> j' = j") (auto simp: cell_set2)
      show "cell (mmm_C ?g') i' j' = fl 0"
        using old r i j h by (cases "i' = i \<and> j' = j") (auto simp: cell_set2)
    qed (use r in \<open>simp_all add: rect_set2\<close>)
    with run show "\<exists>s'. ?body i j g = Some s' \<and> P i (j + 1) s'" by blast
  next
    fix i g assume i: "0 \<le> i" "i < n" and P: "P i (max 0 n) g"
    show "P (i + 1) 0 g"
      unfolding P_def
    proof (intro conjI allI impI)
      fix i' j'
      assume h: "0 \<le> i' \<and> i' < n \<and> 0 \<le> j' \<and> j' < n \<and> (i' < i + 1 \<or> i' = i + 1 \<and> j' < 0)"
      then have "0 \<le> i' \<and> i' < n \<and> 0 \<le> j' \<and> j' < n \<and> (i' < i \<or> i' = i \<and> j' < max 0 n)"
        by auto
      with P have old: "cell (mmm_A g) i' j' = fl (of_int (i' + j'))
              \<and> cell (mmm_B g) i' j' = fl (of_int (i' - j'))
              \<and> cell (mmm_C g) i' j' = fl 0"
        unfolding P_def by blast
      from old show "cell (mmm_A g) i' j' = fl (of_int (i' + j'))" by simp
      from old show "cell (mmm_B g) i' j' = fl (of_int (i' - j'))" by simp
      from old show "cell (mmm_C g) i' j' = fl 0" by simp
    qed (use P in \<open>simp_all add: P_def\<close>)
  qed
  then show ?thesis unfolding init_matrices_def P_def by auto
qed

lemma rect_replicate: "rect h w (replicate h (replicate w v))"
  by (simp add: rect_def list_all_length)

lemma mmm_run_total:
  fixes fl :: "real \<Rightarrow> 'a::{plus,times}"
  shows "\<exists>g. mmm_run fl = Some g
     \<and> rect (nat mmm_N) (nat mmm_N) (mmm_A g) \<and> rect (nat mmm_N) (nat mmm_N) (mmm_B g)
     \<and> rect (nat mmm_N) (nat mmm_N) (mmm_C g)
     \<and> (\<forall>i j. 0 \<le> i \<and> i < mmm_N \<and> 0 \<le> j \<and> j < mmm_N
          \<longrightarrow> cell (mmm_A g) i j = fl (of_int (i + j))
            \<and> cell (mmm_B g) i j = fl (of_int (i - j))
            \<and> cell (mmm_C g) i j = dot (mmm_A g) (mmm_B g) (fl 0) i j (nat mmm_N))"
proof -
  have "\<exists>g. init_matrices fl mmm_N (mmm_globals0 fl) = Some g
           \<and> rect (nat mmm_N) (nat mmm_N) (mmm_A g) \<and> rect (nat mmm_N) (nat mmm_N) (mmm_B g)
           \<and> rect (nat mmm_N) (nat mmm_N) (mmm_C g)
           \<and> (\<forall>i j. 0 \<le> i \<and> i < mmm_N \<and> 0 \<le> j \<and> j < mmm_N
                \<longrightarrow> cell (mmm_A g) i j = fl (of_int (i + j))
                  \<and> cell (mmm_B g) i j = fl (of_int (i - j))
                  \<and> cell (mmm_C g) i j = fl 0)"
    by (rule init_matrices_total) (simp_all add: mmm_globals0_def Let_def rect_replicate)
  then obtain g where g: "init_matrices fl mmm_N (mmm_globals0 fl) = Some g"
    "rect (nat mmm_N) (nat mmm_N) (mmm_A g)" "rect (nat mmm_N) (nat mmm_N) (mmm_B g)"
    "rect (nat mmm_N) (nat mmm_N) (mmm_C g)"
    and cells: "\<And>i j. 0 \<le> i \<and> i < mmm_N \<and> 0 \<le> j \<and> j < mmm_N
                \<Longrightarrow> cell (mmm_A g) i j = fl (of_int (i + j))
                  \<and> cell (mmm_B g) i j = fl (of_int (i - j))
                  \<and> cell (mmm_C g) i j = fl 0"
    by blast
  have geq: "g = \<lparr>mmm_A = mmm_A g, mmm_B = mmm_B g, mmm_C = mmm_C g\<rparr>" by simp
  from matrix_multiply_naive_total[OF g(2,3,4)] obtain C' where
    C': "matrix_multiply_naive mmm_N \<lparr>mmm_A = mmm_A g, mmm_B = mmm_B g, mmm_C = mmm_C g\<rparr>
               = Some \<lparr>mmm_A = mmm_A g, mmm_B = mmm_B g, mmm_C = C'\<rparr>"
      "rect (nat mmm_N) (nat mmm_N) C'"
      "\<And>i j. 0 \<le> i \<and> i < mmm_N \<and> 0 \<le> j \<and> j < mmm_N
          \<Longrightarrow> cell C' i j = dot (mmm_A g) (mmm_B g) (cell (mmm_C g) i j) i j (nat mmm_N)"
    by blast
  let ?g' = "\<lparr>mmm_A = mmm_A g, mmm_B = mmm_B g, mmm_C = C'\<rparr>"
  have "matrix_multiply_naive mmm_N g = Some ?g'" using C'(1) by (cases g) simp
  then have "mmm_run fl = Some ?g'" using g(1) by (simp add: mmm_run_def)
  moreover have "cell (mmm_A ?g') i j = fl (of_int (i + j))
            \<and> cell (mmm_B ?g') i j = fl (of_int (i - j))
            \<and> cell (mmm_C ?g') i j = dot (mmm_A ?g') (mmm_B ?g') (fl 0) i j (nat mmm_N)"
    if "0 \<le> i \<and> i < mmm_N \<and> 0 \<le> j \<and> j < mmm_N" for i j
    using cells[OF that] C'(3)[OF that] by simp
  ultimately show ?thesis using g(2,3) C'(2) by (intro exI[of _ ?g']) simp
qed

text \<open>
  C1. In \<^verbatim>\<open>mmm.c\<close>, after \<open>init_matrices\<close> and \<open>matrix_multiply_naive\<close> with \<open>N = 128\<close>,
  \<open>C[0][0]\<close> is the dot product of the first row of \<open>A\<close> and the first column of \<open>B\<close>:
  the products \<open>A[0][k] * B[k][0]\<close> for \<open>k\<close> from 0 to 127 added to \<open>0.0f\<close> in increasing
  order of \<open>k\<close>, where \<open>A[i][j]\<close> is \<open>i + j\<close> and \<open>B[i][j]\<close> is \<open>i - j\<close> converted to
  \<^verbatim>\<open>float\<close>. With exact arithmetic the value is 690880, the sum of the squares below
  128 (every partial sum is an integer below \<open>2^24\<close>, which \<^verbatim>\<open>float\<close> holds exactly).
\<close>

theorem mmm_C00:
  fixes fl :: "real \<Rightarrow> 'a::{plus,times}"
  shows "\<exists>g. mmm_run fl = Some g
     \<and> cell (mmm_C g) 0 0
         = foldl (\<lambda>acc k. acc + cell (mmm_A g) 0 (int k) * cell (mmm_B g) (int k) 0) (fl 0) [0..<128]
     \<and> (\<forall>i j. 0 \<le> i \<and> i < 128 \<and> 0 \<le> j \<and> j < 128
          \<longrightarrow> cell (mmm_A g) i j = fl (of_int (i + j)) \<and> cell (mmm_B g) i j = fl (of_int (i - j)))"
proof -
  from mmm_run_total[of fl] obtain g where g: "mmm_run fl = Some g"
    and cells: "\<And>i j. 0 \<le> i \<and> i < mmm_N \<and> 0 \<le> j \<and> j < mmm_N
          \<Longrightarrow> cell (mmm_A g) i j = fl (of_int (i + j))
            \<and> cell (mmm_B g) i j = fl (of_int (i - j))
            \<and> cell (mmm_C g) i j = dot (mmm_A g) (mmm_B g) (fl 0) i j (nat mmm_N)"
    by blast
  have "cell (mmm_C g) 0 0 = dot (mmm_A g) (mmm_B g) (fl 0) 0 0 (nat mmm_N)"
    using cells[of 0 0] by (simp add: mmm_N_def)
  then have "cell (mmm_C g) 0 0
         = foldl (\<lambda>acc k. acc + cell (mmm_A g) 0 (int k) * cell (mmm_B g) (int k) 0) (fl 0) [0..<128]"
    by (simp add: dot_def mmm_N_def)
  moreover have "\<forall>i j. 0 \<le> i \<and> i < 128 \<and> 0 \<le> j \<and> j < 128
          \<longrightarrow> cell (mmm_A g) i j = fl (of_int (i + j)) \<and> cell (mmm_B g) i j = fl (of_int (i - j))"
    using cells by (simp add: mmm_N_def)
  ultimately show ?thesis using g by blast
qed

lemma sum_squares_128: "foldl (\<lambda>acc k. acc + real k * real k) 0 [0..<128] = 690880"
  by code_simp

theorem mmm_C00_witness:
  "\<exists>g. mmm_run (\<lambda>r::real. r) = Some g \<and> cell (mmm_C g) 0 0 = 690880"
proof -
  from mmm_C00[of "\<lambda>r::real. r"] obtain g where g: "mmm_run (\<lambda>r::real. r) = Some g"
    and c: "cell (mmm_C g) 0 0
         = foldl (\<lambda>acc k. acc + cell (mmm_A g) 0 (int k) * cell (mmm_B g) (int k) 0) 0 [0..<128]"
    and cells: "\<And>i j. 0 \<le> i \<and> i < 128 \<and> 0 \<le> j \<and> j < 128
          \<Longrightarrow> cell (mmm_A g) i j = of_int (i + j) \<and> cell (mmm_B g) i j = of_int (i - j)"
    by blast
  have "foldl (\<lambda>acc k. acc + cell (mmm_A g) 0 (int k) * cell (mmm_B g) (int k) 0) 0 [0..<128]
      = foldl (\<lambda>acc k. acc + real k * real k) 0 [0..<128]"
    by (rule foldl_cong) (simp_all add: cells)
  with c g show ?thesis by (simp add: sum_squares_128)
qed

section \<open>stream_bench.c: what a pass computes\<close>

lemma load_Some: "load (Some xs) i = rd xs i"
  by (simp add: load_def)

lemma store_Some: "store (Some xs) i v = map_option Some (wr xs i v)"
  by (cases "wr xs i v") (simp_all add: store_def)

text \<open>A loop that assigns \<open>f i\<close> to element \<open>i\<close> of an array of \<open>n\<close> elements.\<close>

lemma fill_loop:
  assumes len: "length b = nat n"
    and body: "\<And>i b'. 0 \<le> i \<Longrightarrow> i < n \<Longrightarrow> length b' = nat n
                 \<Longrightarrow> body i (Some b') = Some (Some (b'[nat i := f i]))"
  shows "for_loop 0 n body (Some b) = Some (Some (map (\<lambda>k. f (int k)) [0..<nat n]))"
proof (cases "0 \<le> n")
  case False
  then show ?thesis using len by (simp add: for_loop_done)
next
  case True
  define P where "P i p \<longleftrightarrow> (\<exists>b'. p = Some b' \<and> length b' = nat n
      \<and> (\<forall>k. k < nat i \<longrightarrow> b' ! k = f (int k)))" for i and p :: "'a ptr"
  have "\<exists>p. for_loop 0 n body (Some b) = Some p \<and> P n p"
  proof (rule for_loop_total[where P = P, OF True])
    show "P 0 (Some b)" using len by (simp add: P_def)
  next
    fix i p assume i: "0 \<le> i" "i < n" and "P i p"
    then obtain b' where b': "p = Some b'" "length b' = nat n"
      and old: "\<And>k. k < nat i \<Longrightarrow> b' ! k = f (int k)"
      unfolding P_def by blast
    have "(b'[nat i := f i]) ! k = f (int k)" if "k < nat (i + 1)" for k
      using that old[of k] i b'(2) by (cases "k = nat i") auto
    then have "P (i + 1) (Some (b'[nat i := f i]))"
      using b'(2) by (simp add: P_def)
    then show "\<exists>s'. body i p = Some s' \<and> P (i + 1) s'"
      using body[OF i b'(2)] b'(1) by simp
  qed
  then obtain b' where b': "for_loop 0 n body (Some b) = Some (Some b')" "length b' = nat n"
    "\<And>k. k < nat n \<Longrightarrow> b' ! k = f (int k)"
    unfolding P_def by blast
  have "b' = map (\<lambda>k. f (int k)) [0..<nat n]"
    by (rule nth_equalityI) (simp_all add: b'(2,3))
  with b'(1) show ?thesis by simp
qed

lemma stream_copy_eq:
  assumes "length a = nat n" "length b = nat n"
  shows "stream_copy (Some a) (Some b) n = Some (Some (map (\<lambda>k. a ! k) [0..<nat n]))"
  unfolding stream_copy_def
  by (rule fill_loop[where f = "\<lambda>i. a ! nat i", simplified, OF assms(2)])
    (simp add: load_Some store_Some rd_Some wr_Some assms(1))

lemma stream_scale_eq:
  assumes "length a = nat n" "length b = nat n"
  shows "stream_scale (Some a) (Some b) scalar n
         = Some (Some (map (\<lambda>k. scalar * a ! k) [0..<nat n]))"
  unfolding stream_scale_def
  by (rule fill_loop[where f = "\<lambda>i. scalar * a ! nat i", simplified, OF assms(2)])
    (simp add: load_Some store_Some rd_Some wr_Some assms(1))

lemma stream_add_eq:
  assumes "length a = nat n" "length b = nat n" "length c = nat n"
  shows "stream_add (Some a) (Some b) (Some c) n
         = Some (Some (map (\<lambda>k. a ! k + b ! k) [0..<nat n]))"
  unfolding stream_add_def
  by (rule fill_loop[where f = "\<lambda>i. a ! nat i + b ! nat i", simplified, OF assms(3)])
    (simp add: load_Some store_Some rd_Some wr_Some assms(1,2))

lemma stream_triad_eq:
  assumes "length a = nat n" "length b = nat n" "length c = nat n"
  shows "stream_triad (Some a) (Some b) (Some c) scalar n
         = Some (Some (map (\<lambda>k. b ! k + scalar * c ! k) [0..<nat n]))"
  unfolding stream_triad_def
  by (rule fill_loop[where f = "\<lambda>i. b ! nat i + scalar * c ! nat i", simplified, OF assms(1)])
    (simp add: load_Some store_Some rd_Some wr_Some assms(2,3))

lemma initialize_arrays_eq:
  assumes "length a = nat n" "length b = nat n" "length c = nat n"
  shows "initialize_arrays fl (Some a) (Some b) (Some c) n
         = Some (Some (replicate (nat n) (fl 1.0)), Some (replicate (nat n) (fl 2.0)),
                 Some (replicate (nat n) (fl 0.0)))"
proof (cases "0 \<le> n")
  case False
  then show ?thesis using assms by (simp add: initialize_arrays_def for_loop_done)
next
  case True
  define P where "P i s \<longleftrightarrow> (\<exists>a' b' c'. s = (Some a', Some b', Some c')
      \<and> length a' = nat n \<and> length b' = nat n \<and> length c' = nat n
      \<and> (\<forall>k. k < nat i \<longrightarrow> a' ! k = fl 1.0 \<and> b' ! k = fl 2.0 \<and> c' ! k = fl 0.0))"
    for i and s :: "'a ptr \<times> 'a ptr \<times> 'a ptr"
  let ?body = "\<lambda>i (a, b, c). do {
       a' \<leftarrow> store a i (fl 1.0);
       b' \<leftarrow> store b i (fl 2.0);
       c' \<leftarrow> store c i (fl 0.0);
       Some (a', b', c')
     }"
  have "\<exists>s. for_loop 0 n ?body (Some a, Some b, Some c) = Some s \<and> P n s"
  proof (rule for_loop_total[where P = P, OF True])
    show "P 0 (Some a, Some b, Some c)" using assms by (simp add: P_def)
  next
    fix i s assume i: "0 \<le> i" "i < n" and "P i s"
    then obtain a' b' c' where s: "s = (Some a', Some b', Some c')"
      and l: "length a' = nat n" "length b' = nat n" "length c' = nat n"
      and old: "\<And>k. k < nat i \<Longrightarrow> a' ! k = fl 1.0 \<and> b' ! k = fl 2.0 \<and> c' ! k = fl 0.0"
      unfolding P_def by blast
    let ?s' = "(Some (a'[nat i := fl 1.0]), Some (b'[nat i := fl 2.0]), Some (c'[nat i := fl 0.0]))"
    have run: "?body i s = Some ?s'" using s l i by (simp add: store_Some wr_Some)
    have "(a'[nat i := fl 1.0]) ! k = fl 1.0 \<and> (b'[nat i := fl 2.0]) ! k = fl 2.0
        \<and> (c'[nat i := fl 0.0]) ! k = fl 0.0" if "k < nat (i + 1)" for k
      using that old[of k] i l by (cases "k = nat i") auto
    then have "P (i + 1) ?s'" using l unfolding P_def by simp
    with run show "\<exists>s'. ?body i s = Some s' \<and> P (i + 1) s'" by blast
  qed
  then obtain a' b' c' where r: "initialize_arrays fl (Some a) (Some b) (Some c) n
      = Some (Some a', Some b', Some c')"
    and l: "length a' = nat n" "length b' = nat n" "length c' = nat n"
    and v: "\<And>k. k < nat n \<Longrightarrow> a' ! k = fl 1.0 \<and> b' ! k = fl 2.0 \<and> c' ! k = fl 0.0"
    unfolding P_def initialize_arrays_def by blast
  have "a' = replicate (nat n) (fl 1.0)" by (rule nth_equalityI) (simp_all add: l v)
  moreover have "b' = replicate (nat n) (fl 2.0)" by (rule nth_equalityI) (simp_all add: l v)
  moreover have "c' = replicate (nat n) (fl 0.0)" by (rule nth_equalityI) (simp_all add: l v)
  ultimately show ?thesis using r by simp
qed

text \<open>One pass, element by element.\<close>

lemma stream_pass_eq:
  fixes a b c :: "('a::{plus,times}) list"
  assumes "length a = nat n" "length b = nat n" "length c = nat n"
  shows "\<exists>a' b' c'. stream_pass fl n (Some a, Some b, Some c) = Some (Some a', Some b', Some c')
     \<and> length a' = nat n \<and> length b' = nat n \<and> length c' = nat n
     \<and> (\<forall>k. k < nat n \<longrightarrow> b' ! k = fl 2.5 * a ! k \<and> c' ! k = a ! k + b' ! k
            \<and> a' ! k = b' ! k + fl 1.5 * c' ! k)"
proof -
  let ?c1 = "map (\<lambda>k. a ! k) [0..<nat n]"
  let ?b1 = "map (\<lambda>k. fl 2.5 * ?c1 ! k) [0..<nat n]"
  let ?c2 = "map (\<lambda>k. a ! k + ?b1 ! k) [0..<nat n]"
  let ?a1 = "map (\<lambda>k. ?b1 ! k + fl 1.5 * ?c2 ! k) [0..<nat n]"
  have 1: "stream_copy (Some a) (Some c) n = Some (Some ?c1)"
    by (rule stream_copy_eq[OF assms(1,3)])
  have 2: "stream_scale (Some ?c1) (Some b) (fl 2.5) n = Some (Some ?b1)"
    by (rule stream_scale_eq) (simp_all add: assms)
  have 3: "stream_add (Some a) (Some ?b1) (Some ?c1) n = Some (Some ?c2)"
    by (rule stream_add_eq) (simp_all add: assms)
  have 4: "stream_triad (Some a) (Some ?b1) (Some ?c2) (fl 1.5) n = Some (Some ?a1)"
    by (rule stream_triad_eq) (simp_all add: assms)
  have "stream_pass fl n (Some a, Some b, Some c) = Some (Some ?a1, Some ?b1, Some ?c2)"
    unfolding stream_pass_def using 1 2 3 4 by simp
  then show ?thesis by (intro exI[of _ ?a1] exI[of _ ?b1] exI[of _ ?c2]) simp
qed

lemma stream_passes_total:
  fixes a b c :: "('a::{plus,times}) list"
  assumes l: "length a = nat n" "length b = nat n" "length c = nat n" and reps: "1 \<le> reps"
  shows "\<exists>a' b' c'. stream_passes fl n reps (Some a, Some b, Some c) = Some (Some a', Some b', Some c')
     \<and> length a' = nat n \<and> length b' = nat n \<and> length c' = nat n
     \<and> (\<forall>k. k < nat n \<longrightarrow> a' ! k = b' ! k + fl 1.5 * c' ! k)"
proof -
  define P where "P rep s \<longleftrightarrow> (\<exists>a' b' c'. s = (Some a', Some b', Some c')
      \<and> length a' = nat n \<and> length b' = nat n \<and> length c' = nat n
      \<and> (1 \<le> rep \<longrightarrow> (\<forall>k. k < nat n \<longrightarrow> a' ! k = b' ! k + fl 1.5 * c' ! k)))"
    for rep :: int and s :: "'a ptr \<times> 'a ptr \<times> 'a ptr"
  have "0 \<le> reps" using reps by simp
  then have "\<exists>s. for_loop 0 reps (\<lambda>rep. stream_pass fl n) (Some a, Some b, Some c) = Some s \<and> P reps s"
  proof (rule for_loop_total[where P = P])
    show "P 0 (Some a, Some b, Some c)" using l by (simp add: P_def)
  next
    fix rep s assume "0 \<le> rep" "rep < reps" "P rep s"
    then obtain a' b' c' where s: "s = (Some a', Some b', Some c')"
      and l': "length a' = nat n" "length b' = nat n" "length c' = nat n"
      unfolding P_def by blast
    from stream_pass_eq[OF l', of fl] s
    show "\<exists>s'. stream_pass fl n s = Some s' \<and> P (rep + 1) s'"
      unfolding P_def by fastforce
  qed
  then show ?thesis using reps unfolding P_def stream_passes_def by fastforce
qed

text \<open>
  C2. The claim: after each pass of copy, scale, add, triad the identity
  \<open>a[i] == scalar * c[i]\<close> holds, with \<open>scalar\<close> the triad scalar 1.5. The triad assigns
  \<open>a[i] = b[i] + scalar * c[i]\<close>, and \<open>b[i]\<close> is not zero: from \<open>a[i] = 1.0\<close> the first
  pass gives \<open>c[i] = 3.5\<close>, \<open>b[i] = 2.5\<close> and \<open>a[i] = 7.75\<close>, while \<open>1.5 * 3.5 = 5.25\<close>.
  These numbers are multiples of \<open>1/4\<close> which \<^verbatim>\<open>double\<close> holds exactly, so the exact run
  is the floating-point run.
\<close>

theorem stream_identity_counterexample:
  "(initialize_arrays (\<lambda>r. r) (Some [0]) (Some [0]) (Some [0::real]) 1 \<bind> stream_passes (\<lambda>r. r) 1 1)
     = Some (Some [31 / 4], Some [5 / 2], Some [7 / 2])
   \<and> (31 / 4 :: real) \<noteq> 1.5 * (7 / 2)"
  by (simp add: initialize_arrays_def stream_passes_def stream_pass_def stream_copy_def
      stream_scale_def stream_add_def stream_triad_def for_loop_step for_loop_done
      load_def store_def rd_def wr_def)

text \<open>
  C2, amended. On allocated arrays of \<open>n\<close> elements, after \<open>initialize_arrays\<close> and any
  number \<open>reps \<ge> 1\<close> of passes (the program makes \<open>REPEAT_COUNT = 10\<close>), the run returns and
  \<open>a[i] == b[i] + scalar * c[i]\<close> holds at every index \<open>i\<close> below \<open>n\<close>, with \<open>scalar\<close> the
  triad scalar 1.5, for every floating-point type.
\<close>

theorem stream_triad_identity:
  fixes a0 b0 c0 :: "('a::{plus,times}) list"
  assumes "length a0 = nat n" and "length b0 = nat n" and "length c0 = nat n"
    and "1 \<le> reps" and "0 \<le> i" and "i < n"
  shows "\<exists>a b c. (initialize_arrays fl (Some a0) (Some b0) (Some c0) n \<bind> stream_passes fl n reps)
            = Some (a, b, c)
         \<and> (\<exists>x y z. load a i = Some x \<and> load b i = Some y \<and> load c i = Some z
               \<and> x = y + fl 1.5 * z)"
proof -
  let ?a = "replicate (nat n) (fl 1.0)" and ?b = "replicate (nat n) (fl 2.0)"
    and ?c = "replicate (nat n) (fl 0.0)"
  have init: "initialize_arrays fl (Some a0) (Some b0) (Some c0) n = Some (Some ?a, Some ?b, Some ?c)"
    by (rule initialize_arrays_eq[OF assms(1-3)])
  have "\<exists>a' b' c'. stream_passes fl n reps (Some ?a, Some ?b, Some ?c) = Some (Some a', Some b', Some c')
     \<and> length a' = nat n \<and> length b' = nat n \<and> length c' = nat n
     \<and> (\<forall>k. k < nat n \<longrightarrow> a' ! k = b' ! k + fl 1.5 * c' ! k)"
    by (rule stream_passes_total) (simp_all add: assms(4))
  then obtain a' b' c' where
    run: "stream_passes fl n reps (Some ?a, Some ?b, Some ?c) = Some (Some a', Some b', Some c')"
    and l: "length a' = nat n" "length b' = nat n" "length c' = nat n"
    and t: "\<And>k. k < nat n \<Longrightarrow> a' ! k = b' ! k + fl 1.5 * c' ! k"
    by blast
  have "load (Some a') i = Some (a' ! nat i)" "load (Some b') i = Some (b' ! nat i)"
    "load (Some c') i = Some (c' ! nat i)"
    using l assms(5,6) by (simp_all add: load_Some rd_Some)
  moreover have "a' ! nat i = b' ! nat i + fl 1.5 * c' ! nat i"
    using t[of "nat i"] assms(5,6) by simp
  ultimately show ?thesis using init run by simp
qed

theorem stream_triad_identity_witness:
  "length [0, 0::real] = nat 2 \<and> (1::int) \<le> 2 \<and> (0::int) \<le> 1 \<and> (1::int) < 2
   \<and> (initialize_arrays (\<lambda>r. r) (Some [0, 0]) (Some [0, 0]) (Some [0, 0::real]) 2
          \<bind> stream_passes (\<lambda>r. r) 2 2)
       = Some (Some [961 / 16, 961 / 16], Some [155 / 8, 155 / 8], Some [217 / 8, 217 / 8])
   \<and> (961 / 16 :: real) = 155 / 8 + 1.5 * (217 / 8)"
proof -
  have run: "(initialize_arrays (\<lambda>r. r) (Some [0, 0]) (Some [0, 0]) (Some [0, 0::real]) 2
          \<bind> stream_passes (\<lambda>r. r) 2 2)
       = Some (Some [961 / 16, 961 / 16], Some [155 / 8, 155 / 8], Some [217 / 8, 217 / 8])"
    by (simp add: initialize_arrays_def stream_passes_def stream_pass_def stream_copy_def
      stream_scale_def stream_add_def stream_triad_def for_loop_step for_loop_done
      load_def store_def rd_def wr_def)
  have "(1::int) \<le> 2" "(0::int) \<le> 1" "(1::int) < 2" "length [0, 0::real] = nat 2" by simp_all
  from stream_triad_identity[OF this(4) this(4) this(4) this(1-3), of "\<lambda>r. r"] run
  show ?thesis by (simp add: load_def rd_def)
qed

section \<open>Lab_1/kernels/kernel2.c: the branch is never taken\<close>

lemma half_int_of_int: "\<bar>i\<bar> \<le> 2 ^ 23 \<Longrightarrow> half_int (of_int i)"
proof -
  assume a: "\<bar>i\<bar> \<le> 2 ^ 23"
  have "2 * real_of_int i = of_int (2 * i)" by simp
  then have "of_int \<lfloor>2 * real_of_int i\<rfloor> = 2 * real_of_int i"
    by (simp only: floor_of_int)
  moreover have "\<bar>real_of_int i\<bar> \<le> 2 ^ 23"
  proof -
    have "real_of_int \<bar>i\<bar> \<le> real_of_int (2 ^ 23)" using a by (simp only: of_int_le_iff)
    then show ?thesis by simp
  qed
  ultimately show ?thesis by (simp add: half_int_def)
qed

lemma half_int_half: "\<bar>i\<bar> \<le> 2 ^ 24 \<Longrightarrow> half_int (of_int i / 2)"
proof -
  assume a: "\<bar>i\<bar> \<le> 2 ^ 24"
  have "real_of_int \<bar>i\<bar> \<le> real_of_int (2 ^ 24)" using a by (simp only: of_int_le_iff)
  then have "\<bar>real_of_int i / 2\<bar> \<le> 2 ^ 23" by simp
  then show ?thesis by (simp add: half_int_def)
qed

text \<open>The difference \<open>A[i] - B[i]\<close> of \<^verbatim>\<open>kernel2.c\<close>, for \<open>i\<close> below \<open>SIZE\<close>.\<close>

lemma lab1_diff:
  assumes ex: "exact_on_halves fl val" and i: "0 \<le> i" "i < lab1_SIZE"
  shows "val (fl (of_int i) * fl 0.5 - (fl (of_int lab1_SIZE) - fl (of_int i) * fl 0.5))
           = of_int (i - lab1_SIZE)"
    and "\<not> fl 0 < fl (of_int i) * fl 0.5 - (fl (of_int lab1_SIZE) - fl (of_int i) * fl 0.5)"
proof -
  from ex have conv: "\<And>r. half_int r \<Longrightarrow> val (fl r) = r"
    and mul: "\<And>x y. half_int (val x) \<Longrightarrow> half_int (val y) \<Longrightarrow> half_int (val x * val y)
                \<Longrightarrow> val (x * y) = val x * val y"
    and sub: "\<And>x y. half_int (val x) \<Longrightarrow> half_int (val y) \<Longrightarrow> half_int (val x - val y)
                \<Longrightarrow> val (x - y) = val x - val y"
    and pos: "\<And>x. half_int (val x) \<Longrightarrow> (fl 0 < x) = (0 < val x)"
    unfolding exact_on_halves_def by auto
  have bi: "\<bar>i\<bar> \<le> 2 ^ 23" "\<bar>i\<bar> \<le> 2 ^ 24" "\<bar>20000 - i\<bar> \<le> 2 ^ 24" "\<bar>i - 10000\<bar> \<le> 2 ^ 23"
    using i by (simp_all add: lab1_SIZE_def)
  define x where "x = fl (of_int i)"
  define h where "h = fl 0.5"
  define s where "s = fl (of_int lab1_SIZE)"
  have hi: "half_int (of_int i)" by (rule half_int_of_int[OF bi(1)])
  have hh: "half_int (1 / 2)" using half_int_half[of 1] by simp
  have hs: "half_int 10000" using half_int_of_int[of 10000] by simp
  have hp: "half_int (of_int i / 2)" by (rule half_int_half[OF bi(2)])
  have hB: "half_int (10000 - of_int i / 2)"
    using half_int_half[OF bi(3)] by (simp add: diff_divide_distrib)
  have hD: "half_int (of_int i - 10000)"
    using half_int_of_int[OF bi(4)] by simp
  have vx: "val x = of_int i" unfolding x_def by (rule conv[OF hi])
  have vh: "val h = 1 / 2" unfolding h_def using conv[OF hh] by simp
  have vs: "val s = 10000" unfolding s_def using conv[OF hs] by (simp add: lab1_SIZE_def)
  have vA: "val (x * h) = of_int i / 2"
    using mul[of x h] hi hh hp by (simp add: vx vh)
  have vB: "val (s - x * h) = 10000 - of_int i / 2"
    using sub[of s "x * h"] hs hp hB by (simp add: vs vA)
  have vD: "val (x * h - (s - x * h)) = of_int i - 10000"
    using sub[of "x * h" "s - x * h"] hp hB hD by (simp add: vA vB)
  then show "val (fl (of_int i) * fl 0.5 - (fl (of_int lab1_SIZE) - fl (of_int i) * fl 0.5))
           = of_int (i - lab1_SIZE)"
    unfolding x_def h_def s_def by (simp add: lab1_SIZE_def)
  have "\<not> fl 0 < x * h - (s - x * h)"
    using pos[of "x * h - (s - x * h)"] hD i by (simp add: vD lab1_SIZE_def)
  then show "\<not> fl 0 < fl (of_int i) * fl 0.5 - (fl (of_int lab1_SIZE) - fl (of_int i) * fl 0.5)"
    unfolding x_def h_def s_def .
qed

lemma lab1_fill:
  fixes fl :: "real \<Rightarrow> 'a::{minus,times}"
  assumes "length A0 = nat n" "length B0 = nat n"
  shows "for_loop 0 n (\<lambda>i (A, B). do {
        A' \<leftarrow> wr A i (fl (of_int i) * fl 0.5);
        B' \<leftarrow> wr B i (fl (of_int m) - fl (of_int i) * fl 0.5);
        Some (A', B')
      }) (A0, B0)
    = Some (map (\<lambda>k. fl (of_int (int k)) * fl 0.5) [0..<nat n],
            map (\<lambda>k. fl (of_int m) - fl (of_int (int k)) * fl 0.5) [0..<nat n])"
proof (cases "0 \<le> n")
  case False
  then show ?thesis using assms by (simp add: for_loop_done)
next
  case True
  let ?a = "\<lambda>i::int. fl (of_int i) * fl 0.5" and ?b = "\<lambda>i::int. fl (of_int m) - fl (of_int i) * fl 0.5"
  define P where "P i s \<longleftrightarrow> (case s of (A, B) \<Rightarrow> length A = nat n \<and> length B = nat n
      \<and> (\<forall>k. k < nat i \<longrightarrow> A ! k = ?a (int k) \<and> B ! k = ?b (int k)))"
    for i and s :: "'a list \<times> 'a list"
  let ?body = "\<lambda>i (A, B). do {
        A' \<leftarrow> wr A i (?a i);
        B' \<leftarrow> wr B i (?b i);
        Some (A', B')
      }"
  have "\<exists>s. for_loop 0 n ?body (A0, B0) = Some s \<and> P n s"
  proof (rule for_loop_total[where P = P, OF True])
    show "P 0 (A0, B0)" using assms by (simp add: P_def)
  next
    fix i s assume i: "0 \<le> i" "i < n" and "P i s"
    then obtain A B where s: "s = (A, B)" and l: "length A = nat n" "length B = nat n"
      and old: "\<And>k. k < nat i \<Longrightarrow> A ! k = ?a (int k) \<and> B ! k = ?b (int k)"
      unfolding P_def by (cases s) auto
    let ?s' = "(A[nat i := ?a i], B[nat i := ?b i])"
    have run: "?body i s = Some ?s'" using s l i by (simp add: wr_Some)
    have "(A[nat i := ?a i]) ! k = ?a (int k) \<and> (B[nat i := ?b i]) ! k = ?b (int k)"
      if "k < nat (i + 1)" for k
      using that old[of k] i l by (cases "k = nat i") auto
    then have "P (i + 1) ?s'" using l unfolding P_def by simp
    with run show "\<exists>s'. ?body i s = Some s' \<and> P (i + 1) s'" by blast
  qed
  then obtain A B where r: "for_loop 0 n ?body (A0, B0) = Some (A, B)"
    and l: "length A = nat n" "length B = nat n"
    and v: "\<And>k. k < nat n \<Longrightarrow> A ! k = ?a (int k) \<and> B ! k = ?b (int k)"
    unfolding P_def by auto
  have "A = map (\<lambda>k. ?a (int k)) [0..<nat n]" by (rule nth_equalityI) (simp_all add: l v)
  moreover have "B = map (\<lambda>k. ?b (int k)) [0..<nat n]" by (rule nth_equalityI) (simp_all add: l v)
  ultimately show ?thesis using r by simp
qed

text \<open>
  C9. In \<^verbatim>\<open>kernel2.c\<close> of Lab 1, for every \<open>i\<close> below \<open>SIZE\<close> the difference
  \<open>A[i] - B[i]\<close> has the value \<open>i - SIZE\<close>, which is negative, so \<^verbatim>\<open>sum += diff\<close> is never
  executed: the program returns 0 and the number it prints is the \<^verbatim>\<open>float\<close> zero that
  \<open>sum\<close> was initialised with (printed by \<^verbatim>\<open>%f\<close> as \<open>0.000000\<close>). This holds for every
  floating-point format that is exact on the half-integers.
\<close>

theorem lab1_kernel2_sum_zero:
  fixes fl :: "real \<Rightarrow> 'a::{plus,minus,times,ord}"
  assumes "exact_on_halves fl val"
  shows "\<exists>A B. lab1_kernel2_main fl = Some ([(''Result: %f'', [Data (fl 0)])], 0, (A, B, fl 0))
     \<and> (\<forall>i. 0 \<le> i \<and> i < lab1_SIZE \<longrightarrow>
           (\<exists>a b. rd A i = Some a \<and> rd B i = Some b
              \<and> val (a - b) = of_int (i - lab1_SIZE) \<and> \<not> fl 0 < a - b))"
proof -
  define fa where "fa i = fl (of_int i) * fl 0.5" for i :: int
  define fb where "fb i = fl (of_int lab1_SIZE) - fl (of_int i) * fl 0.5" for i :: int
  define A where "A = map (\<lambda>k. fa (int k)) [0..<nat lab1_SIZE]"
  define B where "B = map (\<lambda>k. fb (int k)) [0..<nat lab1_SIZE]"
  have fill: "for_loop 0 lab1_SIZE (\<lambda>i (A, B). do {
        A' \<leftarrow> wr A i (fl (of_int i) * fl 0.5);
        B' \<leftarrow> wr B i (fl (of_int lab1_SIZE) - fl (of_int i) * fl 0.5);
        Some (A', B')
      }) (replicate (nat lab1_SIZE) (fl 0), replicate (nat lab1_SIZE) (fl 0)) = Some (A, B)"
    unfolding A_def B_def fa_def fb_def by (rule lab1_fill) simp_all
  have cellA: "rd A i = Some (fa i)" and cellB: "rd B i = Some (fb i)"
    if "0 \<le> i" "i < lab1_SIZE" for i
    using that by (simp_all add: rd_def A_def B_def)
  have neg: "val (fa i - fb i) = of_int (i - lab1_SIZE)" "\<not> fl 0 < fa i - fb i"
    if "0 \<le> i" "i < lab1_SIZE" for i
    unfolding fa_def fb_def by (rule lab1_diff[OF assms that])+
  let ?body = "\<lambda>i acc. do {
        a \<leftarrow> rd A i;
        b \<leftarrow> rd B i;
        let diff = a - b;
        Some (if fl 0 < diff then acc + diff else acc)
      }"
  have "0 \<le> lab1_SIZE" by (simp add: lab1_SIZE_def)
  then have "\<exists>acc. for_loop 0 lab1_SIZE ?body (fl 0) = Some acc \<and> acc = fl 0"
  proof (rule for_loop_total[where P = "\<lambda>i acc. acc = fl 0"])
    fix i acc assume i: "0 \<le> i" "i < lab1_SIZE" and acc: "acc = fl 0"
    show "\<exists>s'. ?body i acc = Some s' \<and> s' = fl 0"
      using neg(2)[OF i] acc by (simp add: cellA[OF i] cellB[OF i])
  qed simp
  then have sum: "for_loop 0 lab1_SIZE ?body (fl 0) = Some (fl 0)" by simp
  have main: "lab1_kernel2_main fl = Some ([(''Result: %f'', [Data (fl 0)])], 0, (A, B, fl 0))"
    unfolding lab1_kernel2_main_def using fill sum by simp
  have "\<exists>a b. rd A i = Some a \<and> rd B i = Some b
              \<and> val (a - b) = of_int (i - lab1_SIZE) \<and> \<not> fl 0 < a - b"
    if "0 \<le> i \<and> i < lab1_SIZE" for i
    using that neg[of i] cellA[of i] cellB[of i] by simp
  with main show ?thesis by blast
qed

theorem lab1_kernel2_sum_zero_witness:
  "exact_on_halves (\<lambda>r::real. r) (\<lambda>x. x)
   \<and> (\<exists>A B. lab1_kernel2_main (\<lambda>r::real. r) = Some ([(''Result: %f'', [Data 0])], 0, (A, B, 0))
        \<and> (\<exists>a b. rd A 3 = Some a \<and> rd B 3 = Some b \<and> a - b = - 9997))"
proof -
  have ex: "exact_on_halves (\<lambda>r::real. r) (\<lambda>x. x)" by (simp add: exact_on_halves_def)
  from lab1_kernel2_sum_zero[OF ex] obtain A B where
    m: "lab1_kernel2_main (\<lambda>r::real. r) = Some ([(''Result: %f'', [Data 0])], 0, (A, B, 0))"
    and d: "\<And>i. 0 \<le> i \<and> i < lab1_SIZE \<Longrightarrow>
           (\<exists>a b. rd A i = Some a \<and> rd B i = Some b
              \<and> a - b = of_int (i - lab1_SIZE) \<and> \<not> 0 < a - b)"
    by blast
  from d[of 3] obtain a b where "rd A 3 = Some a" "rd B 3 = Some b" "a - b = - 9997"
    by (auto simp: lab1_SIZE_def)
  with ex m show ?thesis by blast
qed

section \<open>The runs of the programs\<close>

lemma smod_range: "0 < b \<Longrightarrow> 0 \<le> int r smod b \<and> int r smod b < b"
  by (simp add: smod_nonneg)

lemma kernel5_main_total:
  fixes fl :: "real \<Rightarrow> 'a::plus" and srand :: "nat \<Rightarrow> 'r" and rand :: "'r \<Rightarrow> nat \<times> 'r"
  shows "\<exists>h w idx. kernel5_main fl srand rand = Some ([(''Done.'', [])], 0, (h, w, idx))"
proof -
  let ?n = "nat kernel5_SIZE"
  have n0: "0 \<le> kernel5_SIZE" and npos: "0 < kernel5_SIZE" by (simp_all add: kernel5_SIZE_def)
  define P where "P i s \<longleftrightarrow> (case s of (h, w, idx, rng) \<Rightarrow>
      length h = ?n \<and> length w = ?n \<and> length idx = ?n
      \<and> (\<forall>k. k < nat i \<longrightarrow> 0 \<le> idx ! k \<and> idx ! k < kernel5_SIZE))"
    for i and s :: "'a list \<times> 'a list \<times> int list \<times> 'r"
  let ?body1 = "\<lambda>i (h, w, idx, rng). do {
        h' \<leftarrow> wr h i (fl (of_int i));
        w' \<leftarrow> wr w i (fl (of_int (kernel5_SIZE - i)));
        let (r, rng') = rand rng;
        idx' \<leftarrow> wr idx i (int r smod kernel5_SIZE);
        Some (h', w', idx', rng')
      }"
  let ?s0 = "(replicate ?n (fl 0), replicate ?n (fl 0), replicate ?n (0::int), srand 1)"
  have "\<exists>s. for_loop 0 kernel5_SIZE ?body1 ?s0 = Some s \<and> P kernel5_SIZE s"
  proof (rule for_loop_total[where P = P, OF n0])
    show "P 0 ?s0" by (simp add: P_def)
  next
    fix i s assume i: "0 \<le> i" "i < kernel5_SIZE" and "P i s"
    then obtain h w idx rng where s: "s = (h, w, idx, rng)"
      and l: "length h = ?n" "length w = ?n" "length idx = ?n"
      and old: "\<And>k. k < nat i \<Longrightarrow> 0 \<le> idx ! k \<and> idx ! k < kernel5_SIZE"
      unfolding P_def by (cases s) auto
    obtain r rng' where r: "rand rng = (r, rng')" by (cases "rand rng")
    let ?v = "int r smod kernel5_SIZE"
    let ?s' = "(h[nat i := fl (of_int i)], w[nat i := fl (of_int (kernel5_SIZE - i))],
               idx[nat i := ?v], rng')"
    have run: "?body1 i s = Some ?s'" using s l i r by (simp add: wr_Some)
    have "0 \<le> (idx[nat i := ?v]) ! k \<and> (idx[nat i := ?v]) ! k < kernel5_SIZE"
      if "k < nat (i + 1)" for k
      using that old[of k] i l smod_range[OF npos, of r] by (cases "k = nat i") auto
    then have "P (i + 1) ?s'" using l unfolding P_def by simp
    with run show "\<exists>s'. ?body1 i s = Some s' \<and> P (i + 1) s'" by blast
  qed
  then obtain h w idx rng where 1: "for_loop 0 kernel5_SIZE ?body1 ?s0 = Some (h, w, idx, rng)"
    and l: "length h = ?n" "length w = ?n" "length idx = ?n"
    and ix: "\<And>k. k < ?n \<Longrightarrow> 0 \<le> idx ! k \<and> idx ! k < kernel5_SIZE"
    unfolding P_def by auto
  let ?body2 = "\<lambda>i h. do {
        j \<leftarrow> rd idx i;
        x \<leftarrow> rd h j;
        y \<leftarrow> rd w i;
        wr h j (x + y)
      }"
  have "\<exists>h'. for_loop 0 kernel5_SIZE ?body2 h = Some h' \<and> length h' = ?n"
  proof (rule for_loop_total[where P = "\<lambda>i h. length h = ?n", OF n0 l(1)])
    fix i and h :: "'a list" assume i: "0 \<le> i" "i < kernel5_SIZE" and lh: "length h = ?n"
    have j: "0 \<le> idx ! nat i" "idx ! nat i < kernel5_SIZE" using ix[of "nat i"] i by auto
    show "\<exists>s'. ?body2 i h = Some s' \<and> length s' = ?n"
      using i j l lh by (simp add: rd_Some wr_Some)
  qed
  then obtain h' where 2: "for_loop 0 kernel5_SIZE ?body2 h = Some h'" by blast
  have "kernel5_main fl srand rand = Some ([(''Done.'', [])], 0, (h', w, idx))"
    unfolding kernel5_main_def using 1 2 by simp
  then show ?thesis by blast
qed

lemma lab2_kernel2_main_total:
  fixes srand :: "nat \<Rightarrow> 'r" and rand :: "'r \<Rightarrow> nat \<times> 'r"
  shows "\<exists>acc A. lab2_kernel2_main srand rand = Some ([(''Sum = %d'', [DataInt acc])], 0, A)"
proof -
  let ?n = "nat branch_N"
  have n0: "0 \<le> branch_N" by (simp add: branch_N_def)
  let ?body1 = "\<lambda>i (A, rng). do {
        let (r, rng') = rand rng;
        A' \<leftarrow> wr A i (int r smod 100);
        Some (A', rng')
      }"
  have "\<exists>s. for_loop 0 branch_N ?body1 (replicate ?n 0, srand 1) = Some s \<and> length (fst s) = ?n"
  proof (rule for_loop_total[where P = "\<lambda>i s. length (fst s) = ?n", OF n0])
    fix i and s :: "int list \<times> 'r" assume i: "0 \<le> i" "i < branch_N" and l: "length (fst s) = ?n"
    obtain A rng where s: "s = (A, rng)" by (cases s)
    obtain r rng' where r: "rand rng = (r, rng')" by (cases "rand rng")
    show "\<exists>s'. ?body1 i s = Some s' \<and> length (fst s') = ?n"
      using i l s r by (simp add: wr_Some)
  qed simp
  then obtain A rng where 1: "for_loop 0 branch_N ?body1 (replicate ?n 0, srand 1) = Some (A, rng)"
    and l: "length A = ?n"
    by auto
  let ?body2 = "\<lambda>i acc. do {
        a \<leftarrow> rd A i;
        Some (if a smod 2 = 0 then acc + a else acc)
      }"
  have "\<exists>acc. for_loop 0 branch_N ?body2 0 = Some acc \<and> True"
  proof (rule for_loop_total[where P = "\<lambda>i acc. True", OF n0])
    fix i and acc :: int assume i: "0 \<le> i" "i < branch_N"
    show "\<exists>s'. ?body2 i acc = Some s' \<and> True" using i l by (simp add: rd_Some)
  qed simp
  then obtain acc where 2: "for_loop 0 branch_N ?body2 0 = Some acc" by blast
  have "lab2_kernel2_main srand rand = Some ([(''Sum = %d'', [DataInt acc])], 0, A)"
    unfolding lab2_kernel2_main_def using 1 2 by simp
  then show ?thesis by blast
qed

lemma mmm_main_total:
  fixes fl :: "real \<Rightarrow> 'a::{plus,times,inverse}"
  shows "\<exists>g c00. mmm_main fl e = Some ([(''Done MMM Naive. C[0][0]=%f Time=%.2f ms'',
             [Data c00,
              Timing (fl 1000 * fl (of_int (clock e 1 - clock e 0)) / fl (of_int (CLOCKS_PER_SEC e)))])],
           0, g)"
proof -
  from mmm_run_total[of fl] obtain g where g: "mmm_run fl = Some g"
    "rect (nat mmm_N) (nat mmm_N) (mmm_C g)"
    by blast
  have "rd2 (mmm_C g) 0 0 = Some (cell (mmm_C g) 0 0)"
    by (rule rd2_rect[OF g(2)]) (simp_all add: mmm_N_def)
  then show ?thesis using g(1) by (simp add: mmm_main_def)
qed

lemma malloc_Some: "malloc_ok e k \<Longrightarrow> \<exists>xs. malloc e k n = Some xs \<and> length xs = nat n"
  by (simp add: malloc_def)

lemma stream_main_total:
  fixes fl :: "real \<Rightarrow> 'a::{plus,times,inverse}"
  assumes "malloc_ok e 0" "malloc_ok e 1" "malloc_ok e 2"
  shows "\<exists>a b c a100 b100. stream_main fl e =
     Some ([(''Stream benchmark completed in %f seconds'',
              [Timing (fl (of_int (clock e 1 - clock e 0)) / fl (of_int (CLOCKS_PER_SEC e)))]),
            (''Final result checksum: a[100] = %f, b[100] = %f'', [Data a100, Data b100]),
            (''Approximate memory bandwidth: %.2f GB/s'',
              [Timing ((fl (of_int (stream_ARRAY_SIZE * 8 * 10 * REPEAT_COUNT))
                         / (fl 1024.0 * fl 1024.0 * fl 1024.0))
                       / (fl (of_int (clock e 1 - clock e 0)) / fl (of_int (CLOCKS_PER_SEC e))))])],
           0, (a, b, c))"
proof -
  let ?n = stream_ARRAY_SIZE
  from malloc_Some[OF assms(1)] obtain a0 where a0: "malloc e 0 ?n = Some a0" "length a0 = nat ?n"
    by blast
  from malloc_Some[OF assms(2)] obtain b0 where b0: "malloc e 1 ?n = Some b0" "length b0 = nat ?n"
    by blast
  from malloc_Some[OF assms(3)] obtain c0 where c0: "malloc e 2 ?n = Some c0" "length c0 = nat ?n"
    by blast
  let ?a = "replicate (nat ?n) (fl 1.0)" and ?b = "replicate (nat ?n) (fl 2.0)"
    and ?c = "replicate (nat ?n) (fl 0.0)"
  have init: "initialize_arrays fl (Some a0) (Some b0) (Some c0) ?n = Some (Some ?a, Some ?b, Some ?c)"
    by (rule initialize_arrays_eq[OF a0(2) b0(2) c0(2)])
  have "\<exists>a' b' c'. stream_passes fl ?n REPEAT_COUNT (Some ?a, Some ?b, Some ?c)
       = Some (Some a', Some b', Some c')
     \<and> length a' = nat ?n \<and> length b' = nat ?n \<and> length c' = nat ?n
     \<and> (\<forall>k. k < nat ?n \<longrightarrow> a' ! k = b' ! k + fl 1.5 * c' ! k)"
    by (rule stream_passes_total) (simp_all add: REPEAT_COUNT_def)
  then obtain a' b' c' where
    run: "stream_passes fl ?n REPEAT_COUNT (Some ?a, Some ?b, Some ?c) = Some (Some a', Some b', Some c')"
    and l: "length a' = nat ?n" "length b' = nat ?n"
    by blast
  have ld: "load (Some a') 100 = Some (a' ! 100)" "load (Some b') 100 = Some (b' ! 100)"
    using l by (simp_all add: load_Some rd_def stream_ARRAY_SIZE_def)
  have "stream_main fl e =
     Some ([(''Stream benchmark completed in %f seconds'',
              [Timing (fl (of_int (clock e 1 - clock e 0)) / fl (of_int (CLOCKS_PER_SEC e)))]),
            (''Final result checksum: a[100] = %f, b[100] = %f'', [Data (a' ! 100), Data (b' ! 100)]),
            (''Approximate memory bandwidth: %.2f GB/s'',
              [Timing ((fl (of_int (stream_ARRAY_SIZE * 8 * 10 * REPEAT_COUNT))
                         / (fl 1024.0 * fl 1024.0 * fl 1024.0))
                       / (fl (of_int (clock e 1 - clock e 0)) / fl (of_int (CLOCKS_PER_SEC e))))])],
           0, (Some a', Some b', Some c'))"
    unfolding stream_main_def Let_def a0(1) b0(1) c0(1) using init run ld by simp
  then show ?thesis by blast
qed

lemma stream_main_failure:
  assumes "\<not> (malloc_ok e 0 \<and> malloc_ok e 1 \<and> malloc_ok e 2)"
  shows "stream_main fl e = Some ([(''Memory allocation failed'', [])], 1,
           (malloc e 0 stream_ARRAY_SIZE, malloc e 1 stream_ARRAY_SIZE, malloc e 2 stream_ARRAY_SIZE))"
  using assms unfolding stream_main_def Let_def by (auto simp: malloc_def)

lemma allocate_image_total:
  assumes ok: "\<And>j. k \<le> j \<Longrightarrow> j \<le> k + nat height \<Longrightarrow> malloc_ok e j"
  shows "\<exists>M. allocate_image e k width height = Some (ptr2 M, k + 1 + nat height)
           \<and> rect (nat height) (nat width) M"
proof (cases "0 \<le> height")
  case False
  then have "allocate_image e k width height = Some (ptr2 [], k + 1 + nat height)"
    using ok[of k] by (simp add: allocate_image_def for_loop_done malloc_ptrs_def ptr2_def)
  moreover have "rect (nat height) (nat width) []" using False by (simp add: rect_def)
  ultimately show ?thesis by blast
next
  case True
  define P where "P i s \<longleftrightarrow> (case s of (img, k') \<Rightarrow> k' = k + 1 + nat i
      \<and> (\<exists>tbl. img = Some tbl \<and> length tbl = nat height
            \<and> (\<forall>r. r < nat i \<longrightarrow> (\<exists>row. tbl ! r = Some row \<and> length row = nat width))))"
    for i and s :: "'a ptr ptr \<times> nat"
  let ?body = "\<lambda>i (img, k). do {
       img' \<leftarrow> store img i (malloc e k width);
       Some (img', k + 1)
     }"
  have "\<exists>s. for_loop 0 height ?body (malloc_ptrs e k height, k + 1) = Some s \<and> P height s"
  proof (rule for_loop_total[where P = P, OF True])
    show "P 0 (malloc_ptrs e k height, k + 1)"
      using ok[of k] by (simp add: P_def malloc_ptrs_def)
  next
    fix i s assume i: "0 \<le> i" "i < height" and "P i s"
    then obtain tbl where s: "s = (Some tbl, k + 1 + nat i)" and l: "length tbl = nat height"
      and old: "\<And>r. r < nat i \<Longrightarrow> \<exists>row. tbl ! r = Some row \<and> length row = nat width"
      unfolding P_def by (cases s) auto
    have "malloc_ok e (k + 1 + nat i)" using i by (intro ok) auto
    then obtain row where row: "malloc e (k + 1 + nat i) width = Some row" "length row = nat width"
      using malloc_Some by blast
    let ?s' = "(Some (tbl[nat i := Some row]), k + 1 + nat i + 1)"
    have run: "?body i s = Some ?s'" using s l i row(1) by (simp add: store_Some wr_Some)
    have "\<exists>row'. (tbl[nat i := Some row]) ! r = Some row' \<and> length row' = nat width"
      if "r < nat (i + 1)" for r
      using that old[of r] i l row(2) by (cases "r = nat i") auto
    then have "P (i + 1) ?s'" using l i unfolding P_def by (simp add: nat_add_distrib)
    with run show "\<exists>s'. ?body i s = Some s' \<and> P (i + 1) s'" by blast
  qed
  then obtain tbl where r: "allocate_image e k width height = Some (Some tbl, k + 1 + nat height)"
    and l: "length tbl = nat height"
    and rows: "\<And>r. r < nat height \<Longrightarrow> \<exists>row. tbl ! r = Some row \<and> length row = nat width"
    unfolding P_def allocate_image_def by auto
  let ?M = "map the tbl"
  have "tbl ! r = Some (the (tbl ! r))" if "r < nat height" for r
    using rows[OF that] by auto
  then have "tbl = map Some ?M"
    by (intro nth_equalityI) (simp_all add: l)
  then have "Some tbl = ptr2 ?M" by (simp add: ptr2_def)
  moreover have "length (the (tbl ! r)) = nat width" if "r < nat height" for r
    using rows[OF that] by auto
  then have "rect (nat height) (nat width) ?M"
    using l by (simp add: rect_def list_all_length)
  ultimately show ?thesis using r by auto
qed

lemma allocate_matrix_image: "allocate_matrix e k n = allocate_image e k n n"
  by (simp add: allocate_matrix_def allocate_image_def)

lemma free_image_total:
  assumes "rect (nat height) w M"
  shows "free_image (ptr2 M) height = Some ()"
proof (cases "0 \<le> height")
  case False
  then show ?thesis by (simp add: free_image_def for_loop_done)
next
  case True
  have "\<exists>u. for_loop 0 height (\<lambda>i u. do { row \<leftarrow> load (ptr2 M) i; Some u }) () = Some u \<and> True"
  proof (rule for_loop_total[where P = "\<lambda>i u. True", OF True])
    fix i and u :: unit assume "0 \<le> i" "i < height"
    then show "\<exists>s'. do { row \<leftarrow> load (ptr2 M) i; Some u } = Some s' \<and> True"
      using assms by (simp add: ptr2_def load_Some rd_def rect_def)
  qed simp
  then show ?thesis by (simp add: free_image_def)
qed

lemma free_matrix_image: "free_matrix p n = free_image p n"
  by (simp add: free_matrix_def free_image_def)

lemma rect_blur_kernel: "rect 5 5 blur_kernel"
  by (simp add: rect_def blur_kernel_def)

lemma image_blur_total:
  fixes IN OUT :: "uchar list list"
  assumes I: "rect (nat height) (nat width) IN" and O: "rect (nat height) (nat width) OUT"
  shows "\<exists>OUT'. image_blur (ptr2 IN) (ptr2 OUT) width height = Some (ptr2 OUT')
           \<and> rect (nat height) (nat width) OUT'"
proof -
  have off: "KERNEL_SIZE sdiv 2 = 2" by (simp add: KERNEL_SIZE_def signed_divide_int_def)
  let ?conv = "\<lambda>x y. for_loop (- 2) (2 + 1) (\<lambda>kx. for_loop (- 2) (2 + 1)
          (\<lambda>ky acc. do {
             p \<leftarrow> load2 (ptr2 IN) (y + ky) (x + kx);
             c \<leftarrow> rd2 blur_kernel (ky + 2) (kx + 2);
             Some (acc + uint p * c)
           })) (0::int)"
  let ?body = "\<lambda>x y output. do {
        acc \<leftarrow> ?conv x y;
        store2 output y x (word_of_int (acc sdiv 35))
      }"
  let ?P = "\<lambda>out. \<exists>M. out = ptr2 M \<and> rect (nat height) (nat width) M"
  have conv: "\<exists>acc. ?conv x y = Some acc \<and> True"
    if x: "2 \<le> x" "x < width - 2" and y: "2 \<le> y" "y < height - 2" for x y
  proof (rule for_loop2_total[where P = "\<lambda>kx ky acc. True"])
    fix kx ky :: int and acc :: int
    assume k: "- 2 \<le> kx" "kx < 2 + 1" "- 2 \<le> ky" "ky < 2 + 1"
    have "load2 (ptr2 IN) (y + ky) (x + kx) = Some (cell IN (y + ky) (x + kx))"
      unfolding load2_ptr2 by (rule rd2_rect[OF I]) (use x y k in auto)
    moreover have "rd2 blur_kernel (ky + 2) (kx + 2) = Some (cell blur_kernel (ky + 2) (kx + 2))"
      by (rule rd2_rect[OF rect_blur_kernel]) (use k in auto)
    ultimately show "\<exists>s'. do {
             p \<leftarrow> load2 (ptr2 IN) (y + ky) (x + kx);
             c \<leftarrow> rd2 blur_kernel (ky + 2) (kx + 2);
             Some (acc + uint p * c)
           } = Some s' \<and> True" by simp
  qed simp_all
  have "\<exists>out. for_loop 2 (width - 2) (\<lambda>x. for_loop 2 (height - 2) (?body x)) (ptr2 OUT) = Some out
           \<and> ?P out"
  proof (cases "2 \<le> width - 2")
    case False
    then show ?thesis using O by (auto simp: for_loop_done)
  next
    case True
    show ?thesis
    proof (rule for_loop2_total[where P = "\<lambda>x y. ?P", OF True])
      show "?P (ptr2 OUT)" using O by blast
    next
      fix x y and out :: "uchar ptr ptr"
      assume x: "2 \<le> x" "x < width - 2" and y: "2 \<le> y" "y < height - 2" and "?P out"
      then obtain M where M: "out = ptr2 M" "rect (nat height) (nat width) M" by blast
      from conv[OF x y] obtain acc where acc: "?conv x y = Some acc" by blast
      let ?v = "word_of_int (acc sdiv 35) :: uchar"
      have "store2 out y x ?v = Some (ptr2 (set2 M y x ?v))"
        unfolding M(1) store2_ptr2 using wr2_rect[OF M(2), of y x ?v] x y by simp
      moreover have "rect (nat height) (nat width) (set2 M y x ?v)" by (rule rect_set2[OF M(2)])
      ultimately show "\<exists>s'. ?body x y out = Some s' \<and> ?P s'" using acc by auto
    qed simp
  qed
  then obtain M where
    "for_loop 2 (width - 2) (\<lambda>x. for_loop 2 (height - 2) (?body x)) (ptr2 OUT) = Some (ptr2 M)"
    "rect (nat height) (nat width) M"
    by blast
  then show ?thesis unfolding image_blur_def Let_def off by (intro exI[of _ M]) simp
qed

lemma image_blur_main_total:
  fixes fl :: "real \<Rightarrow> 'a::inverse"
  assumes ok: "\<And>k. k < 1026 \<Longrightarrow> malloc_ok e k"
  shows "\<exists>(o100::uchar) (o200::uchar) inp outp. image_blur_main fl e =
     Some ([(''Image blur completed in %f seconds'',
              [Timing (fl (of_int (clock e 1 - clock e 0)) / fl (of_int (CLOCKS_PER_SEC e)))]),
            (''Result checksum: output[100][100] = %d, output[200][200] = %d'',
             [DataInt (uint o100), DataInt (uint o200)])],
           0, (inp, outp))"
proof -
  have h: "nat HEIGHT = 512" "nat WIDTH = 512" by (simp_all add: HEIGHT_def WIDTH_def)
  have "\<exists>M. allocate_image e 0 WIDTH HEIGHT = Some (ptr2 M, 0 + 1 + nat HEIGHT)
           \<and> rect (nat HEIGHT) (nat WIDTH) M"
    by (rule allocate_image_total) (simp add: ok h)
  then obtain I0 where I0: "allocate_image e 0 WIDTH HEIGHT = Some (ptr2 I0, 513)"
    "rect (nat HEIGHT) (nat WIDTH) I0"
    by (auto simp: h)
  have "\<exists>M. allocate_image e 513 WIDTH HEIGHT = Some (ptr2 M, 513 + 1 + nat HEIGHT)
           \<and> rect (nat HEIGHT) (nat WIDTH) M"
    by (rule allocate_image_total) (simp add: ok h)
  then obtain O0 where O0: "allocate_image e 513 WIDTH HEIGHT = Some (ptr2 O0, 1026)"
    "rect (nat HEIGHT) (nat WIDTH) O0"
    by (auto simp: h)
  from initialize_image_total[OF I0(2)] obtain I1 where
    I1: "initialize_image (ptr2 I0) WIDTH HEIGHT = Some (ptr2 I1)" "rect (nat HEIGHT) (nat WIDTH) I1"
    by blast
  from image_blur_total[OF I1(2) O0(2)] obtain O1 where
    O1: "image_blur (ptr2 I1) (ptr2 O0) WIDTH HEIGHT = Some (ptr2 O1)"
      "rect (nat HEIGHT) (nat WIDTH) O1"
    by blast
  have ld: "load2 (ptr2 O1) 100 100 = Some (cell O1 100 100)"
    "load2 (ptr2 O1) 200 200 = Some (cell O1 200 200)"
    unfolding load2_ptr2 by (rule rd2_rect[OF O1(2)]; simp add: h)+
  have fr: "free_image (ptr2 I1) HEIGHT = Some ()" "free_image (ptr2 O1) HEIGHT = Some ()"
    by (rule free_image_total[OF I1(2)], rule free_image_total[OF O1(2)])
  have "image_blur_main fl e =
     Some ([(''Image blur completed in %f seconds'',
              [Timing (fl (of_int (clock e 1 - clock e 0)) / fl (of_int (CLOCKS_PER_SEC e)))]),
            (''Result checksum: output[100][100] = %d, output[200][200] = %d'',
             [DataInt (uint (cell O1 100 100)), DataInt (uint (cell O1 200 200))])],
           0, (ptr2 I1, ptr2 O1))"
    unfolding image_blur_main_def by (simp add: I0(1) O0(1) I1(1) O1(1) ld fr)
  then show ?thesis by blast
qed

lemma rand_state_add1: "0 \<le> m \<Longrightarrow> rand rng' = (r, rng'') \<Longrightarrow> rng' = rand_state rand rng (nat m)
  \<Longrightarrow> rng'' = rand_state rand rng (nat (m + 1)) \<and> r = rand_value rand rng (nat m)"
  by (simp add: nat_add_distrib rand_value_def)

lemma rect_rand_matrix: "rect n n (rand_matrix fl rand rng n)"
  by (simp add: rect_def rand_matrix_def list_all_length)

lemma cell_rand_matrix:
  "0 \<le> i \<Longrightarrow> i < int n \<Longrightarrow> 0 \<le> j \<Longrightarrow> j < int n \<Longrightarrow>
   cell (rand_matrix fl rand rng n) i j
     = fl (of_int (int (rand_value rand rng (nat (i * int n + j))) smod 100)) / fl 10"
proof -
  assume a: "0 \<le> i" "i < int n" "0 \<le> j" "j < int n"
  have "nat i * n + nat j = nat (i * int n + j)"
    using a by (simp add: nat_add_distrib nat_mult_distrib)
  then show ?thesis using a by (simp add: cell_def rand_matrix_def)
qed

lemma initialize_matrix_total:
  fixes fl :: "real \<Rightarrow> 'a::inverse" and rand :: "'r \<Rightarrow> nat \<times> 'r"
  assumes M: "rect (nat n) (nat n) M"
  shows "initialize_matrix fl rand (ptr2 M) n rng
         = Some (ptr2 (rand_matrix fl rand rng (nat n)), rand_state rand rng (nat n * nat n))"
proof (cases "0 \<le> n")
  case False
  then have "M = []" "nat n = 0" using M by (simp_all add: rect_def)
  then show ?thesis using False by (simp add: initialize_matrix_def for_loop_done rand_matrix_def)
next
  case n0: True
  let ?v = "\<lambda>m. fl (of_int (int (rand_value rand rng (nat m)) smod 100)) / fl 10"
  define P where "P i j s \<longleftrightarrow> (case s of (p, r) \<Rightarrow> r = rand_state rand rng (nat (i * n + j))
      \<and> (\<exists>M'. p = ptr2 M' \<and> rect (nat n) (nat n) M'
            \<and> (\<forall>i' j'. 0 \<le> i' \<and> i' < n \<and> 0 \<le> j' \<and> j' < n \<and> (i' < i \<or> i' = i \<and> j' < j)
                  \<longrightarrow> cell M' i' j' = ?v (i' * n + j'))))"
    for i j and s :: "'a ptr ptr \<times> 'r"
  let ?body = "\<lambda>i j (matrix, rng). do {
       let (r, rng') = rand rng;
       matrix' \<leftarrow> store2 matrix i j (fl (of_int (int r smod 100)) / fl 10);
       Some (matrix', rng')
     }"
  have "\<exists>s. for_loop 0 n (\<lambda>i. for_loop 0 n (?body i)) (ptr2 M, rng) = Some s \<and> P n 0 s"
  proof (rule for_loop2_total[where P = P, OF n0])
    show "P 0 0 (ptr2 M, rng)" using M by (auto simp: P_def)
  next
    fix i j s
    assume i: "0 \<le> i" "i < n" and j: "0 \<le> j" "j < n" and "P i j s"
    then obtain M' r where s: "s = (ptr2 M', r)" and r: "r = rand_state rand rng (nat (i * n + j))"
      and M': "rect (nat n) (nat n) M'"
      and old: "\<And>i' j'. 0 \<le> i' \<and> i' < n \<and> 0 \<le> j' \<and> j' < n \<and> (i' < i \<or> i' = i \<and> j' < j)
                  \<Longrightarrow> cell M' i' j' = ?v (i' * n + j')"
      unfolding P_def by (cases s) auto
    obtain x r' where x: "rand r = (x, r')" by (cases "rand r")
    have m0: "0 \<le> i * n + j" using i j n0 by simp
    from rand_state_add1[OF m0 x r]
    have r': "r' = rand_state rand rng (nat (i * n + (j + 1)))"
      and xv: "x = rand_value rand rng (nat (i * n + j))"
      by (simp_all add: add.assoc)
    let ?w = "fl (of_int (int x smod 100)) / fl 10"
    have run: "?body i j s = Some (ptr2 (set2 M' i j ?w), r')"
      using s x M' i j by (simp add: store2_ptr2 wr2_rect)
    have "cell (set2 M' i j ?w) i' j' = ?v (i' * n + j')"
      if h: "0 \<le> i' \<and> i' < n \<and> 0 \<le> j' \<and> j' < n \<and> (i' < i \<or> i' = i \<and> j' < j + 1)" for i' j'
    proof (cases "i' = i \<and> j' = j")
      case True
      then show ?thesis using M' i j xv by (simp add: cell_set2)
    next
      case False
      then have "cell (set2 M' i j ?w) i' j' = cell M' i' j'"
        using M' i j h by (auto simp: cell_set2)
      moreover have "i' < i \<or> i' = i \<and> j' < j" using h False by auto
      ultimately show ?thesis using old[of i' j'] h by simp
    qed
    then have "P i (j + 1) (ptr2 (set2 M' i j ?w), r')"
      unfolding P_def using r' rect_set2[OF M'] by auto
    with run show "\<exists>s'. ?body i j s = Some s' \<and> P i (j + 1) s'" by blast
  next
    fix i s assume i: "0 \<le> i" "i < n" and "P i (max 0 n) s"
    then obtain M' r where s: "s = (ptr2 M', r)" and r: "r = rand_state rand rng (nat (i * n + n))"
      and M': "rect (nat n) (nat n) M'"
      and old: "\<And>i' j'. 0 \<le> i' \<and> i' < n \<and> 0 \<le> j' \<and> j' < n \<and> (i' < i \<or> i' = i \<and> j' < n)
                  \<Longrightarrow> cell M' i' j' = ?v (i' * n + j')"
      unfolding P_def using n0 by (cases s) (auto simp: max_def)
    have "i * n + n = (i + 1) * n + 0" by (simp add: algebra_simps)
    then have r2: "r = rand_state rand rng (nat ((i + 1) * n + 0))" using r by simp
    have "cell M' i' j' = ?v (i' * n + j')"
      if "0 \<le> i' \<and> i' < n \<and> 0 \<le> j' \<and> j' < n \<and> (i' < i + 1 \<or> i' = i + 1 \<and> j' < 0)" for i' j'
      using that by (intro old) auto
    then show "P (i + 1) 0 s" unfolding P_def s using r2 M' by auto
  qed
  then obtain M' where run: "initialize_matrix fl rand (ptr2 M) n rng
      = Some (ptr2 M', rand_state rand rng (nat (n * n + 0)))"
    and M': "rect (nat n) (nat n) M'"
    and cells: "\<And>i' j'. 0 \<le> i' \<and> i' < n \<and> 0 \<le> j' \<and> j' < n \<Longrightarrow> cell M' i' j' = ?v (i' * n + j')"
    unfolding P_def initialize_matrix_def by auto
  have "M' = rand_matrix fl rand rng (nat n)"
  proof (rule rect_cell_eq[OF M' rect_rand_matrix])
    fix i j assume "0 \<le> i" "i < int (nat n)" "0 \<le> j" "j < int (nat n)"
    then show "cell M' i j = cell (rand_matrix fl rand rng (nat n)) i j"
      using cells[of i j] n0 by (simp add: cell_rand_matrix)
  qed
  moreover have "nat (n * n + 0) = nat n * nat n" using n0 by (simp add: nat_mult_distrib)
  ultimately show ?thesis using run by simp
qed

lemma zero_matrix_total:
  assumes M: "rect (nat n) (nat n) M"
  shows "zero_matrix fl (ptr2 M) n = Some (ptr2 (replicate (nat n) (replicate (nat n) (fl 0))))"
proof (cases "0 \<le> n")
  case False
  then have "M = []" "nat n = 0" using M by (simp_all add: rect_def)
  then show ?thesis using False by (simp add: zero_matrix_def for_loop_done)
next
  case n0: True
  define P where "P i j p \<longleftrightarrow> (\<exists>M'. p = ptr2 M' \<and> rect (nat n) (nat n) M'
            \<and> (\<forall>i' j'. 0 \<le> i' \<and> i' < n \<and> 0 \<le> j' \<and> j' < n \<and> (i' < i \<or> i' = i \<and> j' < j)
                  \<longrightarrow> cell M' i' j' = fl 0))"
    for i j and p :: "'a ptr ptr"
  have "\<exists>p. for_loop 0 n (\<lambda>i. for_loop 0 n (\<lambda>j matrix. store2 matrix i j (fl 0))) (ptr2 M) = Some p
          \<and> P n 0 p"
  proof (rule for_loop2_total[where P = P, OF n0])
    show "P 0 0 (ptr2 M)" using M by (auto simp: P_def)
  next
    fix i j p
    assume i: "0 \<le> i" "i < n" and j: "0 \<le> j" "j < n" and "P i j p"
    then obtain M' where p: "p = ptr2 M'" and M': "rect (nat n) (nat n) M'"
      and old: "\<And>i' j'. 0 \<le> i' \<and> i' < n \<and> 0 \<le> j' \<and> j' < n \<and> (i' < i \<or> i' = i \<and> j' < j)
                  \<Longrightarrow> cell M' i' j' = fl 0"
      unfolding P_def by auto
    have run: "store2 p i j (fl 0) = Some (ptr2 (set2 M' i j (fl 0)))"
      using p M' i j by (simp add: store2_ptr2 wr2_rect)
    have "cell (set2 M' i j (fl 0)) i' j' = fl 0"
      if h: "0 \<le> i' \<and> i' < n \<and> 0 \<le> j' \<and> j' < n \<and> (i' < i \<or> i' = i \<and> j' < j + 1)" for i' j'
    proof (cases "i' = i \<and> j' = j")
      case True
      then show ?thesis using M' i j by (simp add: cell_set2)
    next
      case False
      then have "cell (set2 M' i j (fl 0)) i' j' = cell M' i' j'"
        using M' i j h by (auto simp: cell_set2)
      moreover have "i' < i \<or> i' = i \<and> j' < j" using h False by auto
      ultimately show ?thesis using old[of i' j'] h by simp
    qed
    then have "P i (j + 1) (ptr2 (set2 M' i j (fl 0)))"
      unfolding P_def using rect_set2[OF M'] by auto
    with run show "\<exists>s'. store2 p i j (fl 0) = Some s' \<and> P i (j + 1) s'" by blast
  next
    fix i p assume i: "0 \<le> i" "i < n" and "P i (max 0 n) p"
    then obtain M' where p: "p = ptr2 M'" and M': "rect (nat n) (nat n) M'"
      and old: "\<And>i' j'. 0 \<le> i' \<and> i' < n \<and> 0 \<le> j' \<and> j' < n \<and> (i' < i \<or> i' = i \<and> j' < n)
                  \<Longrightarrow> cell M' i' j' = fl 0"
      unfolding P_def using n0 by (auto simp: max_def)
    have "cell M' i' j' = fl 0"
      if "0 \<le> i' \<and> i' < n \<and> 0 \<le> j' \<and> j' < n \<and> (i' < i + 1 \<or> i' = i + 1 \<and> j' < 0)" for i' j'
      using that by (intro old) auto
    then show "P (i + 1) 0 p" unfolding P_def p using M' by auto
  qed
  then obtain M' where run: "zero_matrix fl (ptr2 M) n = Some (ptr2 M')"
    and M': "rect (nat n) (nat n) M'"
    and cells: "\<And>i' j'. 0 \<le> i' \<and> i' < n \<and> 0 \<le> j' \<and> j' < n \<Longrightarrow> cell M' i' j' = fl 0"
    unfolding P_def zero_matrix_def by auto
  have "M' = replicate (nat n) (replicate (nat n) (fl 0))"
  proof (rule rect_cell_eq[OF M' rect_replicate])
    fix i j assume "0 \<le> i" "i < int (nat n)" "0 \<le> j" "j < int (nat n)"
    then show "cell M' i j = cell (replicate (nat n) (replicate (nat n) (fl 0))) i j"
      using cells[of i j] n0 by (simp add: cell_def)
  qed
  then show ?thesis using run by simp
qed

lemma rect_dot_matrix: "rect n n (dot_matrix A B c n)"
  by (simp add: rect_def dot_matrix_def list_all_length)

lemma cell_dot_matrix:
  "0 \<le> i \<Longrightarrow> i < int n \<Longrightarrow> 0 \<le> j \<Longrightarrow> j < int n
   \<Longrightarrow> cell (dot_matrix A B c n) i j = dot A B c i j n"
  by (simp add: cell_def dot_matrix_def)

lemma matrix_multiply_zero:
  fixes A B :: "('a::{plus,times}) list list"
  assumes A: "rect (nat n) (nat n) A" and B: "rect (nat n) (nat n) B"
  shows "matrix_multiply (ptr2 A) (ptr2 B) (ptr2 (replicate (nat n) (replicate (nat n) c))) n
         = Some (ptr2 (dot_matrix A B c (nat n)))"
proof -
  let ?C0 = "replicate (nat n) (replicate (nat n) c)"
  from matrix_multiply_total[OF A B rect_replicate] obtain C' where
    C': "matrix_multiply (ptr2 A) (ptr2 B) (ptr2 ?C0) n = Some (ptr2 C')" "rect (nat n) (nat n) C'"
      "\<And>i j. 0 \<le> i \<and> i < n \<and> 0 \<le> j \<and> j < n \<Longrightarrow> cell C' i j = dot A B (cell ?C0 i j) i j (nat n)"
    by blast
  have "C' = dot_matrix A B c (nat n)"
  proof (rule rect_cell_eq[OF C'(2) rect_dot_matrix])
    fix i j assume r: "0 \<le> i" "i < int (nat n)" "0 \<le> j" "j < int (nat n)"
    then have r': "0 \<le> i \<and> i < n \<and> 0 \<le> j \<and> j < n" by (auto split: if_splits)
    from r' have "nat i < nat n" "nat j < nat n" by auto
    then have "cell ?C0 i j = c" by (simp add: cell_def)
    with C'(3)[OF r'] r show "cell C' i j = cell (dot_matrix A B c (nat n)) i j"
      by (simp add: cell_dot_matrix)
  qed
  with C'(1) show ?thesis by simp
qed

lemma mallocs_ok_iff: "mallocs_ok e n \<longleftrightarrow> (\<forall>k. k < n \<longrightarrow> malloc_ok e k)"
  by (auto simp: mallocs_ok_def list_all_iff)

text \<open>The run of \<^verbatim>\<open>matrix_mult_unopt.c\<close> when its allocations succeed.\<close>

lemma matrix_mult_main_total:
  fixes fl :: "real \<Rightarrow> 'a::{plus,times,inverse}" and srand :: "nat \<Rightarrow> 'r"
    and rand :: "'r \<Rightarrow> nat \<times> 'r"
  assumes ok: "mallocs_ok e 771"
  defines "A \<equiv> rand_matrix fl rand (srand 42) 256"
    and "B \<equiv> rand_matrix fl rand (rand_state rand (srand 42) 65536) 256"
  defines "C \<equiv> dot_matrix A B (fl 0) 256"
  shows "matrix_mult_main fl srand rand e =
     Some ([(''Matrix multiplication completed in %f seconds'',
              [Timing (fl (of_int (clock e 1 - clock e 0)) / fl (of_int (CLOCKS_PER_SEC e)))]),
            (''Result checksum: C[0][0] = %f, C[100][100] = %f'',
              [Data (cell C 0 0), Data (cell C 100 100)])],
           0, (ptr2 A, ptr2 B, ptr2 C))"
proof -
  have n: "nat matrix_SIZE = 256" by (simp add: matrix_SIZE_def)
  have okk: "malloc_ok e k" if "k < 771" for k using ok that by (simp add: mallocs_ok_iff)
  have "\<exists>M. allocate_image e 0 matrix_SIZE matrix_SIZE = Some (ptr2 M, 0 + 1 + nat matrix_SIZE)
           \<and> rect (nat matrix_SIZE) (nat matrix_SIZE) M"
    by (rule allocate_image_total) (simp add: okk n)
  then obtain A0 where A0: "allocate_matrix e 0 matrix_SIZE = Some (ptr2 A0, 257)"
    "rect (nat matrix_SIZE) (nat matrix_SIZE) A0"
    by (auto simp: n allocate_matrix_image)
  have "\<exists>M. allocate_image e 257 matrix_SIZE matrix_SIZE = Some (ptr2 M, 257 + 1 + nat matrix_SIZE)
           \<and> rect (nat matrix_SIZE) (nat matrix_SIZE) M"
    by (rule allocate_image_total) (simp add: okk n)
  then obtain B0 where B0: "allocate_matrix e 257 matrix_SIZE = Some (ptr2 B0, 514)"
    "rect (nat matrix_SIZE) (nat matrix_SIZE) B0"
    by (auto simp: n allocate_matrix_image)
  have "\<exists>M. allocate_image e 514 matrix_SIZE matrix_SIZE = Some (ptr2 M, 514 + 1 + nat matrix_SIZE)
           \<and> rect (nat matrix_SIZE) (nat matrix_SIZE) M"
    by (rule allocate_image_total) (simp add: okk n)
  then obtain C0 where C0: "allocate_matrix e 514 matrix_SIZE = Some (ptr2 C0, 771)"
    "rect (nat matrix_SIZE) (nat matrix_SIZE) C0"
    by (auto simp: n allocate_matrix_image)
  have iA: "initialize_matrix fl rand (ptr2 A0) matrix_SIZE (srand 42)
      = Some (ptr2 A, rand_state rand (srand 42) 65536)"
    using initialize_matrix_total[OF A0(2), of fl rand "srand 42"] by (simp add: n A_def)
  have iB: "initialize_matrix fl rand (ptr2 B0) matrix_SIZE (rand_state rand (srand 42) 65536)
      = Some (ptr2 B, rand_state rand (rand_state rand (srand 42) 65536) 65536)"
    using initialize_matrix_total[OF B0(2), of fl rand] by (simp add: n B_def)
  have zC: "zero_matrix fl (ptr2 C0) matrix_SIZE = Some (ptr2 (replicate 256 (replicate 256 (fl 0))))"
    using zero_matrix_total[OF C0(2), of fl] by (simp add: n)
  have rA: "rect (nat matrix_SIZE) (nat matrix_SIZE) A" unfolding A_def n by (rule rect_rand_matrix)
  have rB: "rect (nat matrix_SIZE) (nat matrix_SIZE) B" unfolding B_def n by (rule rect_rand_matrix)
  have rC: "rect (nat matrix_SIZE) 256 C" unfolding C_def n by (rule rect_dot_matrix)
  have mm: "matrix_multiply (ptr2 A) (ptr2 B) (ptr2 (replicate 256 (replicate 256 (fl 0)))) matrix_SIZE
      = Some (ptr2 C)"
    using matrix_multiply_zero[OF rA rB, of "fl 0"] by (simp add: n C_def)
  have ld: "load2 (ptr2 C) 0 0 = Some (cell C 0 0)" "load2 (ptr2 C) 100 100 = Some (cell C 100 100)"
    unfolding load2_ptr2 by (rule rd2_rect[OF rC]; simp add: n)+
  have fr: "free_matrix (ptr2 A) matrix_SIZE = Some ()" "free_matrix (ptr2 B) matrix_SIZE = Some ()"
    "free_matrix (ptr2 C) matrix_SIZE = Some ()"
    unfolding free_matrix_image
    by (rule free_image_total[OF rA], rule free_image_total[OF rB], rule free_image_total[OF rC])
  show ?thesis
    unfolding matrix_mult_main_def by (simp add: A0(1) B0(1) C0(1) iA iB zC mm ld fr)
qed

lemma lab1_kernel2_main_total:
  fixes fl :: "real \<Rightarrow> 'a::{plus,minus,times,ord}"
  shows "\<exists>acc A B. lab1_kernel2_main fl = Some ([(''Result: %f'', [Data acc])], 0, (A, B, acc))"
proof -
  define fa where "fa i = fl (of_int i) * fl 0.5" for i :: int
  define fb where "fb i = fl (of_int lab1_SIZE) - fl (of_int i) * fl 0.5" for i :: int
  define A where "A = map (\<lambda>k. fa (int k)) [0..<nat lab1_SIZE]"
  define B where "B = map (\<lambda>k. fb (int k)) [0..<nat lab1_SIZE]"
  have fill: "for_loop 0 lab1_SIZE (\<lambda>i (A, B). do {
        A' \<leftarrow> wr A i (fl (of_int i) * fl 0.5);
        B' \<leftarrow> wr B i (fl (of_int lab1_SIZE) - fl (of_int i) * fl 0.5);
        Some (A', B')
      }) (replicate (nat lab1_SIZE) (fl 0), replicate (nat lab1_SIZE) (fl 0)) = Some (A, B)"
    unfolding A_def B_def fa_def fb_def by (rule lab1_fill) simp_all
  let ?body = "\<lambda>i acc. do {
        a \<leftarrow> rd A i;
        b \<leftarrow> rd B i;
        let diff = a - b;
        Some (if fl 0 < diff then acc + diff else acc)
      }"
  have "0 \<le> lab1_SIZE" by (simp add: lab1_SIZE_def)
  then have "\<exists>acc. for_loop 0 lab1_SIZE ?body (fl 0) = Some acc \<and> True"
  proof (rule for_loop_total[where P = "\<lambda>i acc. True"])
    fix i and acc :: 'a assume i: "0 \<le> i" "i < lab1_SIZE"
    then show "\<exists>s'. ?body i acc = Some s' \<and> True"
      by (simp add: rd_def A_def B_def Let_def)
  qed simp
  then obtain acc where "for_loop 0 lab1_SIZE ?body (fl 0) = Some acc" by blast
  then have "lab1_kernel2_main fl = Some ([(''Result: %f'', [Data acc])], 0, (A, B, acc))"
    unfolding lab1_kernel2_main_def using fill by simp
  then show ?thesis by blast
qed

text \<open>A failed first allocation is used unchecked.\<close>

lemma allocate_image_null:
  assumes "\<not> malloc_ok e k" and "0 < height"
  shows "allocate_image e k width height = None"
  using assms by (simp add: allocate_image_def for_loop_step malloc_ptrs_def store_def)

lemma image_blur_main_null: "\<not> malloc_ok e 0 \<Longrightarrow> image_blur_main fl e = None"
  by (simp add: image_blur_main_def allocate_image_null HEIGHT_def)

lemma matrix_mult_main_null: "\<not> malloc_ok e 0 \<Longrightarrow> matrix_mult_main fl srand rand e = None"
  by (simp add: matrix_mult_main_def allocate_matrix_image allocate_image_null matrix_SIZE_def)

text \<open>Every \<^verbatim>\<open>return\<close> of the programs other than \<^verbatim>\<open>stream_bench.c\<close> returns 0.\<close>

lemma image_blur_main_code: "image_blur_main fl e = Some (out, code, m) \<Longrightarrow> code = 0"
  by (auto simp: image_blur_main_def Let_def split: bind_splits prod.splits)

lemma matrix_mult_main_code: "matrix_mult_main fl srand rand e = Some (out, code, m) \<Longrightarrow> code = 0"
  by (auto simp: matrix_mult_main_def Let_def split: bind_splits prod.splits)

lemma kernel4_main_code: "kernel4_main = Some (out, code, m) \<Longrightarrow> code = 0"
  by (auto simp: kernel4_main_def split: bind_splits)

section \<open>Determinism, output and exit codes\<close>

lemma mallocs_ok_quiet: "mallocs_ok quiet_env n"
  by (simp add: mallocs_ok_iff quiet_env_def)

lemma mallocs_ok_busy: "mallocs_ok busy_env n"
  by (simp add: mallocs_ok_iff busy_env_def)

text \<open>
  C5. The programs that call \<^verbatim>\<open>rand()\<close> are deterministic. Two runs of
  \<^verbatim>\<open>matrix_mult_unopt.c\<close> (seed 42) with the same generator, in any two environments
  in which the allocations succeed, whatever the clock shows and whatever the fresh
  memory holds, end with the same contents of \<open>A\<close>, \<open>B\<close> and \<open>C\<close> and print the same checksum
  line. \<^verbatim>\<open>kernel5.c\<close> and \<^verbatim>\<open>kernel2.c\<close> of Lab 2 never call \<^verbatim>\<open>srand\<close>, start from the
  state of seed 1, and have a result that the generator alone determines.
\<close>

theorem rand_programs_deterministic:
  fixes fl :: "real \<Rightarrow> 'a::{plus,times,inverse}" and srand :: "nat \<Rightarrow> 'r"
    and rand :: "'r \<Rightarrow> nat \<times> 'r" and e1 e2 :: "'a env"
  assumes "mallocs_ok e1 771" and "mallocs_ok e2 771"
  shows "(\<exists>m. final_arrays (matrix_mult_main fl srand rand e1) = Some m
            \<and> final_arrays (matrix_mult_main fl srand rand e2) = Some m)
       \<and> (\<exists>l. map_option (filter checksum_line) (printed (matrix_mult_main fl srand rand e1)) = Some [l]
            \<and> map_option (filter checksum_line) (printed (matrix_mult_main fl srand rand e2)) = Some [l])
       \<and> (\<exists>r. kernel5_main fl srand rand = Some r)
       \<and> (\<exists>r :: ('a, int list) outcome. lab2_kernel2_main srand rand = Some r)"
proof -
  note 1 = matrix_mult_main_total[OF assms(1), of fl srand rand]
  note 2 = matrix_mult_main_total[OF assms(2), of fl srand rand]
  have "\<exists>m. final_arrays (matrix_mult_main fl srand rand e1) = Some m
            \<and> final_arrays (matrix_mult_main fl srand rand e2) = Some m"
    by (simp add: 1 2 final_arrays_def)
  moreover have "\<exists>l. map_option (filter checksum_line) (printed (matrix_mult_main fl srand rand e1)) = Some [l]
            \<and> map_option (filter checksum_line) (printed (matrix_mult_main fl srand rand e2)) = Some [l]"
    by (simp add: 1 2 printed_def checksum_line_def)
  moreover have "\<exists>r. kernel5_main fl srand rand = Some r"
    using kernel5_main_total[of fl srand rand] by blast
  moreover have "\<exists>r :: ('a, int list) outcome. lab2_kernel2_main srand rand = Some r"
    using lab2_kernel2_main_total[of srand rand] by blast
  ultimately show ?thesis by blast
qed

theorem rand_programs_deterministic_witness:
  "mallocs_ok (quiet_env :: real env) 771 \<and> mallocs_ok (busy_env :: real env) 771
   \<and> (\<exists>m. final_arrays (matrix_mult_main (\<lambda>r::real. r) (\<lambda>seed. seed) lcg quiet_env) = Some m
         \<and> final_arrays (matrix_mult_main (\<lambda>r::real. r) (\<lambda>seed. seed) lcg busy_env) = Some m)"
  using rand_programs_deterministic[OF mallocs_ok_quiet mallocs_ok_busy, of "\<lambda>r::real. r" "\<lambda>seed. seed" lcg]
    mallocs_ok_quiet[of 771] mallocs_ok_busy[of 771]
  by blast

text \<open>
  C7. The claim: every program prints a timing line and a checksum line on every run.
  \<^verbatim>\<open>kernel5.c\<close> never calls \<^verbatim>\<open>clock()\<close> and prints the one line \<open>Done.\<close>, which carries
  no value at all.
\<close>

theorem kernel5_prints_done_only:
  "printed (kernel5_main (\<lambda>r::real. r) (\<lambda>seed. seed) lcg) = Some [(''Done.'', [])]
   \<and> \<not> list_ex timing_line [(''Done.'', []) :: real line]
   \<and> \<not> list_ex checksum_line [(''Done.'', []) :: real line]"
  using kernel5_main_total[of "\<lambda>r::real. r" "\<lambda>seed. seed" lcg]
  by (auto simp: printed_def timing_line_def checksum_line_def)

text \<open>
  C7, amended. The four programs that time their kernel with \<^verbatim>\<open>clock()\<close>
  (\<^verbatim>\<open>matrix_mult_unopt.c\<close>, \<^verbatim>\<open>image_blur_unopt.c\<close> and \<^verbatim>\<open>stream_bench.c\<close> when their
  allocations succeed, and \<^verbatim>\<open>mmm.c\<close>) print a timing value and a checksum value on
  every run; \<^verbatim>\<open>kernel2.c\<close> of Lab 1 and of Lab 2 print a result line and no timing;
  \<^verbatim>\<open>kernel5.c\<close> prints \<open>Done.\<close> only.
\<close>

theorem printed_lines:
  fixes fl :: "real \<Rightarrow> 'a::{plus,minus,times,inverse,ord}" and srand :: "nat \<Rightarrow> 'r"
    and rand :: "'r \<Rightarrow> nat \<times> 'r" and e :: "'a env" and eu :: "uchar env"
  shows "(mallocs_ok e 771 \<longrightarrow>
            (\<exists>out. printed (matrix_mult_main fl srand rand e) = Some out
               \<and> list_ex timing_line out \<and> list_ex checksum_line out))
       \<and> (mallocs_ok eu 1026 \<longrightarrow>
            (\<exists>out. printed (image_blur_main fl eu) = Some out
               \<and> list_ex timing_line out \<and> list_ex checksum_line out))
       \<and> (mallocs_ok e 3 \<longrightarrow>
            (\<exists>out. printed (stream_main fl e) = Some out
               \<and> list_ex timing_line out \<and> list_ex checksum_line out))
       \<and> (\<exists>out. printed (mmm_main fl e) = Some out
               \<and> list_ex timing_line out \<and> list_ex checksum_line out)
       \<and> (\<exists>out. printed (lab1_kernel2_main fl) = Some out
               \<and> list_ex checksum_line out \<and> \<not> list_ex timing_line out)
       \<and> (\<exists>out :: 'a line list. printed (lab2_kernel2_main srand rand) = Some out
               \<and> list_ex checksum_line out \<and> \<not> list_ex timing_line out)
       \<and> printed (kernel5_main fl srand rand) = Some [(''Done.'', [])]"
proof (intro conjI impI)
  assume "mallocs_ok e 771"
  from matrix_mult_main_total[OF this, of fl srand rand]
  show "\<exists>out. printed (matrix_mult_main fl srand rand e) = Some out
               \<and> list_ex timing_line out \<and> list_ex checksum_line out"
    by (simp add: printed_def timing_line_def checksum_line_def)
next
  assume "mallocs_ok eu 1026"
  then have "\<And>k. k < 1026 \<Longrightarrow> malloc_ok eu k" by (simp add: mallocs_ok_iff)
  from image_blur_main_total[OF this, of fl]
  show "\<exists>out. printed (image_blur_main fl eu) = Some out
               \<and> list_ex timing_line out \<and> list_ex checksum_line out"
    by (auto simp: printed_def timing_line_def checksum_line_def)
next
  assume "mallocs_ok e 3"
  then have "malloc_ok e 0" "malloc_ok e 1" "malloc_ok e 2" by (simp_all add: mallocs_ok_iff)
  from stream_main_total[OF this, of fl]
  show "\<exists>out. printed (stream_main fl e) = Some out
               \<and> list_ex timing_line out \<and> list_ex checksum_line out"
    by (auto simp: printed_def timing_line_def checksum_line_def)
next
  from mmm_main_total[of fl e]
  show "\<exists>out. printed (mmm_main fl e) = Some out
               \<and> list_ex timing_line out \<and> list_ex checksum_line out"
    by (auto simp: printed_def timing_line_def checksum_line_def)
next
  from lab1_kernel2_main_total[of fl]
  show "\<exists>out. printed (lab1_kernel2_main fl) = Some out
               \<and> list_ex checksum_line out \<and> \<not> list_ex timing_line out"
    by (auto simp: printed_def timing_line_def checksum_line_def)
next
  from lab2_kernel2_main_total[of srand rand]
  obtain acc A where "lab2_kernel2_main srand rand
      = Some ([(''Sum = %d'', [DataInt acc :: 'a arg])], 0, A)" by blast
  then show "\<exists>out :: 'a line list. printed (lab2_kernel2_main srand rand) = Some out
               \<and> list_ex checksum_line out \<and> \<not> list_ex timing_line out"
    by (simp add: printed_def timing_line_def checksum_line_def)
next
  from kernel5_main_total[of fl srand rand]
  show "printed (kernel5_main fl srand rand) = Some [(''Done.'', [])]"
    by (auto simp: printed_def)
qed

theorem printed_lines_witness:
  "mallocs_ok (quiet_env :: real env) 771 \<and> mallocs_ok (quiet_env :: uchar env) 1026
   \<and> mallocs_ok (quiet_env :: real env) 3
   \<and> (\<exists>out. printed (matrix_mult_main (\<lambda>r::real. r) (\<lambda>seed. seed) lcg quiet_env) = Some out
               \<and> list_ex timing_line out \<and> list_ex checksum_line out)
   \<and> (\<exists>out. printed (image_blur_main (\<lambda>r::real. r) quiet_env) = Some out
               \<and> list_ex timing_line out \<and> list_ex checksum_line out)
   \<and> (\<exists>out. printed (stream_main (\<lambda>r::real. r) quiet_env) = Some out
               \<and> list_ex timing_line out \<and> list_ex checksum_line out)"
  using printed_lines[of "quiet_env :: real env" "\<lambda>r::real. r" "\<lambda>seed. seed" lcg "quiet_env :: uchar env"]
    mallocs_ok_quiet[of 771, where ?'a = real] mallocs_ok_quiet[of 3, where ?'a = real]
    mallocs_ok_quiet[of 1026, where ?'a = uchar]
  by blast

lemma mallocs_ok_3: "mallocs_ok e 3 \<longleftrightarrow> malloc_ok e 0 \<and> malloc_ok e 1 \<and> malloc_ok e 2"
  by (auto simp: mallocs_ok_iff less_Suc_eq numeral_3_eq_3 numeral_2_eq_2)

lemma not_malloc_ok_starved: "\<not> malloc_ok starved_env k"
  by (simp add: starved_env_def)

lemma not_mallocs_ok_starved: "\<not> mallocs_ok starved_env 3"
  by (simp add: mallocs_ok_3 not_malloc_ok_starved)

text \<open>
  C4. Exit codes. \<^verbatim>\<open>stream_bench.c\<close> returns 1, having printed
  \<open>Memory allocation failed\<close> and nothing else, exactly when one of its three
  \<^verbatim>\<open>malloc\<close> calls returns null, and returns 0 otherwise. Every other program returns 0
  whenever it returns: \<^verbatim>\<open>mmm.c\<close>, \<^verbatim>\<open>kernel5.c\<close> and both \<^verbatim>\<open>kernel2.c\<close> on every run,
  \<^verbatim>\<open>matrix_mult_unopt.c\<close> and \<^verbatim>\<open>image_blur_unopt.c\<close> when their allocations succeed.
  These two do not handle a failed allocation: they use the pointer unchecked, and with
  a null first allocation the run is undefined instead of returning a code.
\<close>

theorem exit_codes:
  fixes fl :: "real \<Rightarrow> 'a::{plus,minus,times,inverse,ord}" and srand :: "nat \<Rightarrow> 'r"
    and rand :: "'r \<Rightarrow> nat \<times> 'r" and e :: "'a env" and eu :: "uchar env"
  shows "(if mallocs_ok e 3
          then exit_code (stream_main fl e) = Some 0
          else exit_code (stream_main fl e) = Some 1
             \<and> printed (stream_main fl e) = Some [(''Memory allocation failed'', [])])
       \<and> exit_code (mmm_main fl e) = Some 0
       \<and> exit_code (kernel5_main fl srand rand) = Some 0
       \<and> exit_code (lab1_kernel2_main fl) = Some 0
       \<and> exit_code (lab2_kernel2_main srand rand :: ('a, int list) outcome option) = Some 0
       \<and> (mallocs_ok e 771 \<longrightarrow> exit_code (matrix_mult_main fl srand rand e) = Some 0)
       \<and> (mallocs_ok eu 1026 \<longrightarrow> exit_code (image_blur_main fl eu) = Some 0)
       \<and> exit_code (matrix_mult_main fl srand rand e) \<in> {None, Some 0}
       \<and> exit_code (image_blur_main fl eu) \<in> {None, Some 0}
       \<and> exit_code (kernel4_main :: ('a, int list) outcome option) \<in> {None, Some 0}
       \<and> (\<not> malloc_ok e 0 \<longrightarrow> matrix_mult_main fl srand rand e = None)
       \<and> (\<not> malloc_ok eu 0 \<longrightarrow> image_blur_main fl eu = None)"
proof (intro conjI impI)
  show "if mallocs_ok e 3
          then exit_code (stream_main fl e) = Some 0
          else exit_code (stream_main fl e) = Some 1
             \<and> printed (stream_main fl e) = Some [(''Memory allocation failed'', [])]"
  proof (cases "mallocs_ok e 3")
    case True
    then have "malloc_ok e 0" "malloc_ok e 1" "malloc_ok e 2" by (simp_all add: mallocs_ok_3)
    from stream_main_total[OF this, of fl] True show ?thesis by (auto simp: exit_code_def)
  next
    case False
    then have "\<not> (malloc_ok e 0 \<and> malloc_ok e 1 \<and> malloc_ok e 2)"
      by (simp add: mallocs_ok_3)
    from stream_main_failure[OF this, of fl] False show ?thesis
      by (simp add: exit_code_def printed_def)
  qed
next
  from mmm_main_total[of fl e] show "exit_code (mmm_main fl e) = Some 0"
    by (auto simp: exit_code_def)
next
  from kernel5_main_total[of fl srand rand] show "exit_code (kernel5_main fl srand rand) = Some 0"
    by (auto simp: exit_code_def)
next
  from lab1_kernel2_main_total[of fl] show "exit_code (lab1_kernel2_main fl) = Some 0"
    by (auto simp: exit_code_def)
next
  from lab2_kernel2_main_total[of srand rand]
  obtain acc A where "lab2_kernel2_main srand rand
      = Some ([(''Sum = %d'', [DataInt acc :: 'a arg])], 0, A)" by blast
  then show "exit_code (lab2_kernel2_main srand rand :: ('a, int list) outcome option) = Some 0"
    by (simp add: exit_code_def)
next
  assume "mallocs_ok e 771"
  from matrix_mult_main_total[OF this, of fl srand rand]
  show "exit_code (matrix_mult_main fl srand rand e) = Some 0"
    by (simp add: exit_code_def)
next
  assume "mallocs_ok eu 1026"
  then have "\<And>k. k < 1026 \<Longrightarrow> malloc_ok eu k" by (simp add: mallocs_ok_iff)
  from image_blur_main_total[OF this, of fl]
  show "exit_code (image_blur_main fl eu) = Some 0"
    by (auto simp: exit_code_def)
next
  show "exit_code (matrix_mult_main fl srand rand e) \<in> {None, Some 0}"
    by (cases "matrix_mult_main fl srand rand e")
      (auto simp: exit_code_def dest: matrix_mult_main_code)
next
  show "exit_code (image_blur_main fl eu) \<in> {None, Some 0}"
    by (cases "image_blur_main fl eu") (auto simp: exit_code_def dest: image_blur_main_code)
next
  show "exit_code (kernel4_main :: ('a, int list) outcome option) \<in> {None, Some 0}"
    by (cases "kernel4_main :: ('a, int list) outcome option")
      (auto simp: exit_code_def dest: kernel4_main_code)
next
  assume "\<not> malloc_ok e 0"
  then show "matrix_mult_main fl srand rand e = None" by (rule matrix_mult_main_null)
next
  assume "\<not> malloc_ok eu 0"
  then show "image_blur_main fl eu = None" by (rule image_blur_main_null)
qed

theorem exit_codes_witness:
  "exit_code (stream_main (\<lambda>r::real. r) quiet_env) = Some 0
   \<and> exit_code (stream_main (\<lambda>r::real. r) starved_env) = Some 1
   \<and> printed (stream_main (\<lambda>r::real. r) starved_env) = Some [(''Memory allocation failed'', [])]
   \<and> exit_code (matrix_mult_main (\<lambda>r::real. r) (\<lambda>seed. seed) lcg quiet_env) = Some 0
   \<and> exit_code (image_blur_main (\<lambda>r::real. r) quiet_env) = Some 0
   \<and> matrix_mult_main (\<lambda>r::real. r) (\<lambda>seed. seed) lcg starved_env = None
   \<and> image_blur_main (\<lambda>r::real. r) starved_env = None"
  using exit_codes[of "quiet_env :: real env" "\<lambda>r::real. r" "\<lambda>seed. seed" lcg "quiet_env :: uchar env"]
    exit_codes[of "starved_env :: real env" "\<lambda>r::real. r" "\<lambda>seed. seed" lcg "starved_env :: uchar env"]
    mallocs_ok_quiet[of 771, where ?'a = real] mallocs_ok_quiet[of 3, where ?'a = real]
    mallocs_ok_quiet[of 1026, where ?'a = uchar]
    not_mallocs_ok_starved[where ?'a = real] not_malloc_ok_starved[of 0, where ?'a = real]
    not_malloc_ok_starved[of 0, where ?'a = uchar]
  by simp

end
